theory Spec2Isabelle
  imports Main "HOL-Library.Word" "HOL-Library.Multiset" "HOL-Library.Sublist"
begin

section \<open>Go channels\<close>

text \<open>
  The guide's programs communicate over Go channels. A channel is modelled by its
  buffer (oldest element first), its capacity and its closed flag, following the
  guide's description in \<^verbatim>\<open>03-Concurrency/02-channels.md\<close>:
  \<^item> ``Sends to a buffered channel block only when the buffer is full.''
  \<^item> ``Receives block only when the buffer is empty.''
  \<^item> ``\<^verbatim>\<open>ok\<close> is \<^verbatim>\<open>false\<close> if there are no more values to receive and the
    channel is closed.''
  \<^item> ``Sending on a closed channel will cause a panic.''
  Go's \<^verbatim>\<open>int\<close> is taken to be the 64-bit machine integer, so arithmetic wraps.
\<close>

type_synonym goint = "64 word"

record 'a chan =
  buf :: "'a list"
  cap :: nat
  closed :: bool

text \<open>\<^verbatim>\<open>make(chan T, n)\<close>\<close>

definition make_chan :: "nat \<Rightarrow> 'a chan" where
  "make_chan n = \<lparr>buf = [], cap = n, closed = False\<rparr>"

text \<open>
  The run-time panics that the programs below can raise: the two channel panics, the
  panic of \<^verbatim>\<open>sync.WaitGroup\<close> when its counter would drop below zero, and a panic raised
  by the program itself with the given value.
\<close>

datatype panic =
  SendOnClosedChannel | CloseOfClosedChannel | NegativeWaitGroupCounter | Panic string

datatype 'a send_result = Sent "'a chan" | SendBlocks | SendPanics

datatype 'a recv_result = Received 'a "'a chan" | RecvBlocks | RecvClosed

text \<open>\<^verbatim>\<open>ch <- v\<close>: panics on a closed channel, blocks while the buffer is full.\<close>

definition chan_send :: "'a chan \<Rightarrow> 'a \<Rightarrow> 'a send_result" where
  "chan_send c v =
     (if closed c then SendPanics
      else if length (buf c) < cap c then Sent (c\<lparr>buf := buf c @ [v]\<rparr>)
      else SendBlocks)"

text \<open>
  \<^verbatim>\<open>v, ok := <-ch\<close>: the oldest buffered value with \<^verbatim>\<open>ok = true\<close>; on an empty
  channel \<^verbatim>\<open>ok = false\<close> (\<open>RecvClosed\<close>) when it is closed, and blocking otherwise.
\<close>

definition chan_recv :: "'a chan \<Rightarrow> 'a recv_result" where
  "chan_recv c =
     (case buf c of
        x # xs \<Rightarrow> Received x (c\<lparr>buf := xs\<rparr>)
      | [] \<Rightarrow> if closed c then RecvClosed else RecvBlocks)"

text \<open>\<^verbatim>\<open>close(ch)\<close>; closing a channel twice is a run-time panic (\<open>None\<close>).\<close>

definition chan_close :: "'a chan \<Rightarrow> 'a chan option" where
  "chan_close c = (if closed c then None else Some (c\<lparr>closed := True\<rparr>))"

text \<open>
  What a receiver sees on \<open>n\<close> successive receives from a channel on which nobody
  sends any more: the replies, oldest first, and the channel afterwards. A receive that
  would block ends the sequence.
\<close>

datatype 'a reply = Item 'a | ClosedEmpty | WouldBlock

fun recv_n :: "nat \<Rightarrow> 'a chan \<Rightarrow> 'a reply list \<times> 'a chan" where
  "recv_n 0 c = ([], c)"
| "recv_n (Suc n) c =
     (case chan_recv c of
        Received x c' \<Rightarrow> (case recv_n n c' of (rs, c'') \<Rightarrow> (Item x # rs, c''))
      | RecvClosed \<Rightarrow> (case recv_n n c of (rs, c'') \<Rightarrow> (ClosedEmpty # rs, c''))
      | RecvBlocks \<Rightarrow> ([WouldBlock], c))"

section \<open>Goroutines under an interleaving scheduler\<close>

text \<open>
  A program is a set of goroutines that share channels. Each goroutine is a small state
  machine; one step of the program is one step of one goroutine, chosen by the
  scheduler. A step function takes the state and the number of the goroutine to run and
  answers \<open>Next\<close> with the new state, \<open>Wait\<close> when that goroutine cannot run now (it is
  blocked on a channel, has returned, does not exist yet, or the program has exited),
  or \<open>Crash\<close> when the step panics. A schedule is the list of goroutine numbers chosen,
  and \<open>run\<close> executes it; every interleaving of the program is \<open>run\<close> on some schedule.
\<close>

datatype 's outcome = Next 's | Wait | Crash panic

fun run :: "('s \<Rightarrow> nat \<Rightarrow> 's outcome) \<Rightarrow> 's \<Rightarrow> nat list \<Rightarrow> 's outcome" where
  "run step s [] = Next s"
| "run step s (t # ts) =
     (case step s t of Next s' \<Rightarrow> run step s' ts | Wait \<Rightarrow> Wait | Crash p \<Rightarrow> Crash p)"

text \<open>The state reached, if the schedule could be run to its end.\<close>

fun reached :: "'s outcome \<Rightarrow> 's option" where
  "reached (Next s) = Some s"
| "reached Wait = None"
| "reached (Crash p) = None"

section \<open>Fan-out, fan-in: the worker pool\<close>

text \<open>
  \<^verbatim>\<open>
  func worker(id int, jobs <-chan int, results chan<- int) {
      for j := range jobs {
          results <- j * 2
      }
  }

  func main() {
      numJobs := 10
      jobs := make(chan int, numJobs)
      results := make(chan int, numJobs)
      for w := 1; w <= 3; w++ {
          go worker(w, jobs, results)
      }
      for j := 1; j <= numJobs; j++ {
          jobs <- j
      }
      close(jobs)
      for a := 1; a <= numJobs; a++ {
          <-results
      }
  }
  \<close>
  The number of workers (3 in the guide) and \<^verbatim>\<open>numJobs\<close> (10 in the guide) are
  parameters \<open>numWorkers\<close> and \<open>numJobs\<close> of the model. A worker is either at the head of
  its \<^verbatim>\<open>range\<close> loop, or holds a job \<open>j\<close> whose result it is about to send, or has left
  the loop. The field \<open>emitted\<close> counts the sends a worker has completed, and
  \<open>observed\<close> lists the values \<^verbatim>\<open>main\<close> has received from \<^verbatim>\<open>results\<close> (the guide's
  \<^verbatim>\<open>main\<close> throws them away); neither influences a step.
\<close>

datatype wstate = WRecv | WSend goint | WDone

record worker =
  wpc :: wstate
  emitted :: nat

datatype mpc = Spawn nat | SendJobs nat | CloseJobs | Collect nat | Exit

record pool =
  jobs :: "goint chan"
  results :: "goint chan"
  workers :: "worker list"
  main_pc :: mpc
  observed :: "goint list"

definition pool_init :: "nat \<Rightarrow> pool" where
  "pool_init numJobs =
     \<lparr>jobs = make_chan numJobs, results = make_chan numJobs, workers = [],
      main_pc = Spawn 1, observed = []\<rparr>"

definition worker_step :: "pool \<Rightarrow> nat \<Rightarrow> pool outcome" where
  "worker_step s i =
     (if length (workers s) \<le> i then Wait
      else let w = workers s ! i in
        case wpc w of
          WRecv \<Rightarrow>
            (case chan_recv (jobs s) of
               Received j c \<Rightarrow> Next (s\<lparr>jobs := c, workers := (workers s)[i := w\<lparr>wpc := WSend j\<rparr>]\<rparr>)
             | RecvClosed \<Rightarrow> Next (s\<lparr>workers := (workers s)[i := w\<lparr>wpc := WDone\<rparr>]\<rparr>)
             | RecvBlocks \<Rightarrow> Wait)
        | WSend j \<Rightarrow>
            (case chan_send (results s) (j * 2) of
               Sent c \<Rightarrow>
                 Next (s\<lparr>results := c,
                          workers := (workers s)[i := \<lparr>wpc = WRecv, emitted = Suc (emitted w)\<rparr>]\<rparr>)
             | SendBlocks \<Rightarrow> Wait
             | SendPanics \<Rightarrow> Crash SendOnClosedChannel)
        | WDone \<Rightarrow> Wait)"

definition main_step :: "nat \<Rightarrow> nat \<Rightarrow> pool \<Rightarrow> pool outcome" where
  "main_step numWorkers numJobs s =
     (case main_pc s of
        Spawn w \<Rightarrow>
          if w \<le> numWorkers
          then Next (s\<lparr>workers := workers s @ [\<lparr>wpc = WRecv, emitted = 0\<rparr>], main_pc := Spawn (Suc w)\<rparr>)
          else Next (s\<lparr>main_pc := SendJobs 1\<rparr>)
      | SendJobs j \<Rightarrow>
          if j \<le> numJobs
          then (case chan_send (jobs s) (of_nat j) of
                  Sent c \<Rightarrow> Next (s\<lparr>jobs := c, main_pc := SendJobs (Suc j)\<rparr>)
                | SendBlocks \<Rightarrow> Wait
                | SendPanics \<Rightarrow> Crash SendOnClosedChannel)
          else Next (s\<lparr>main_pc := CloseJobs\<rparr>)
      | CloseJobs \<Rightarrow>
          (case chan_close (jobs s) of
             Some c \<Rightarrow> Next (s\<lparr>jobs := c, main_pc := Collect 1\<rparr>)
           | None \<Rightarrow> Crash CloseOfClosedChannel)
      | Collect a \<Rightarrow>
          if a \<le> numJobs
          then (case chan_recv (results s) of
                  Received v c \<Rightarrow>
                    Next (s\<lparr>results := c, observed := observed s @ [v], main_pc := Collect (Suc a)\<rparr>)
                | RecvClosed \<Rightarrow> Next (s\<lparr>observed := observed s @ [0], main_pc := Collect (Suc a)\<rparr>)
                | RecvBlocks \<Rightarrow> Wait)
          else Next (s\<lparr>main_pc := Exit\<rparr>)
      | Exit \<Rightarrow> Wait)"

text \<open>
  Goroutine 0 is \<^verbatim>\<open>main\<close>, goroutine \<open>i + 1\<close> is the \<open>i\<close>-th worker started. When
  \<^verbatim>\<open>main\<close> has returned the program has exited and nothing runs any more.
\<close>

definition pool_step :: "nat \<Rightarrow> nat \<Rightarrow> pool \<Rightarrow> nat \<Rightarrow> pool outcome" where
  "pool_step numWorkers numJobs s t =
     (if main_pc s = Exit then Wait
      else if t = 0 then main_step numWorkers numJobs s
      else worker_step s (t - 1))"

text \<open>
  Where the results are: in \<open>flow\<close>, from the receiver back to the sender, the values
  \<^verbatim>\<open>main\<close> has received, those buffered in \<^verbatim>\<open>results\<close>, those a worker is about to
  send, and the results still owed for the jobs buffered in \<^verbatim>\<open>jobs\<close> and for the jobs
  \<^verbatim>\<open>main\<close> has not sent yet.
\<close>

definition wout :: "worker \<Rightarrow> goint list" where
  "wout w = (case wpc w of WSend j \<Rightarrow> [j * 2] | _ \<Rightarrow> [])"

definition inflight :: "worker list \<Rightarrow> goint list" where
  "inflight ws = concat (map wout ws)"

definition unsent :: "nat \<Rightarrow> mpc \<Rightarrow> nat list" where
  "unsent N pc = (case pc of Spawn w \<Rightarrow> [1..<Suc N] | SendJobs j \<Rightarrow> [j..<Suc N] | _ \<Rightarrow> [])"

definition flow :: "nat \<Rightarrow> pool \<Rightarrow> goint list" where
  "flow N s = observed s @ buf (results s) @ inflight (workers s)
               @ map (\<lambda>j. j * 2) (buf (jobs s)) @ map (\<lambda>j. of_nat j * 2) (unsent N (main_pc s))"

definition doubled :: "nat \<Rightarrow> goint list" where
  "doubled N = map (\<lambda>j. of_nat j * 2) [1..<Suc N]"

text \<open>
  The invariant of the pool: the channels keep their capacity, \<^verbatim>\<open>results\<close> stays open
  and \<^verbatim>\<open>jobs\<close> is closed exactly from \<^verbatim>\<open>close(jobs)\<close> on; the loop counters of
  \<^verbatim>\<open>main\<close> agree with the workers started and the values received; the results in
  \<open>flow\<close> are, up to order, those of the jobs 1 to \<open>N\<close>; a worker has left its loop only
  if \<^verbatim>\<open>jobs\<close> is closed and empty; and the sends the workers have completed are as
  many as the values received or buffered.
\<close>

definition inv_chan :: "nat \<Rightarrow> pool \<Rightarrow> bool" where
  "inv_chan N s \<longleftrightarrow> cap (jobs s) = N \<and> cap (results s) = N \<and> \<not> closed (results s)
     \<and> (closed (jobs s) \<longleftrightarrow> (\<exists>a. main_pc s = Collect a) \<or> main_pc s = Exit)"

definition inv_pc :: "nat \<Rightarrow> nat \<Rightarrow> pool \<Rightarrow> bool" where
  "inv_pc W N s \<longleftrightarrow>
     (case main_pc s of
        Spawn w \<Rightarrow> 1 \<le> w \<and> w \<le> Suc W \<and> Suc (length (workers s)) = w \<and> observed s = []
      | SendJobs j \<Rightarrow> 1 \<le> j \<and> j \<le> Suc N \<and> length (workers s) = W \<and> observed s = []
      | CloseJobs \<Rightarrow> length (workers s) = W \<and> observed s = []
      | Collect a \<Rightarrow> length (workers s) = W \<and> a = Suc (length (observed s))
      | Exit \<Rightarrow> length (workers s) = W \<and> length (observed s) = N)"

definition inv_done :: "pool \<Rightarrow> bool" where
  "inv_done s \<longleftrightarrow> ((\<exists>w \<in> set (workers s). wpc w = WDone) \<longrightarrow> closed (jobs s) \<and> buf (jobs s) = [])"

definition inv_emitted :: "pool \<Rightarrow> bool" where
  "inv_emitted s \<longleftrightarrow>
     sum_list (map emitted (workers s)) = length (observed s) + length (buf (results s))"

definition pool_inv :: "nat \<Rightarrow> nat \<Rightarrow> pool \<Rightarrow> bool" where
  "pool_inv W N s \<longleftrightarrow> inv_chan N s \<and> inv_pc W N s \<and> mset (flow N s) = mset (doubled N)
     \<and> inv_done s \<and> inv_emitted s"

text \<open>
  Every step lowers \<open>pool_measure\<close>: the steps \<^verbatim>\<open>main\<close> still has to take, two for each
  job not yet taken by a worker, one for each result a worker still holds, and one for
  each worker still in its loop.
\<close>

definition main_left :: "nat \<Rightarrow> nat \<Rightarrow> mpc \<Rightarrow> nat" where
  "main_left W N pc =
     (case pc of
        Spawn w \<Rightarrow> 2 * (Suc W - w) + 2 * N + 4
      | SendJobs j \<Rightarrow> (Suc N - j) + N + 3
      | CloseJobs \<Rightarrow> N + 2
      | Collect a \<Rightarrow> (Suc N - a) + 1
      | Exit \<Rightarrow> 0)"

definition active :: "worker list \<Rightarrow> nat" where
  "active ws = sum_list (map (\<lambda>w. if wpc w = WDone then 0 else 1) ws)"

definition pool_measure :: "nat \<Rightarrow> nat \<Rightarrow> pool \<Rightarrow> nat" where
  "pool_measure W N s =
     main_left W N (main_pc s) + 2 * length (unsent N (main_pc s)) + 2 * length (buf (jobs s))
     + length (inflight (workers s)) + active (workers s)"

section \<open>Pipelines: \<^verbatim>\<open>gen\<close> and \<^verbatim>\<open>sq\<close>\<close>

text \<open>
  \<^verbatim>\<open>
  func gen(nums ...int) <-chan int {
      out := make(chan int)
      go func() {
          for _, n := range nums {
              out <- n
          }
          close(out)
      }()
      return out
  }

  func sq(in <-chan int) <-chan int {
      out := make(chan int)
      go func() {
          for n := range in {
              out <- n * n
          }
          close(out)
      }()
      return out
  }

  func main() {
      c := gen(2, 3)
      out := sq(c)
      fmt.Println(<-out) // 4
      fmt.Println(<-out) // 9
  }
  \<close>
  Both channels are unbuffered, so a value passes from the sender to the receiver in one
  joint step, enabled when the sender is at its send and the receiver at its receive; the
  step is taken when the scheduler runs either of the two. The arguments of \<^verbatim>\<open>gen\<close>
  (\<open>2, 3\<close> in the guide) and the number of \<^verbatim>\<open>fmt.Println(<-out)\<close> statements of
  \<^verbatim>\<open>main\<close> (2 in the guide) are the parameters \<open>nums\<close> and \<open>k\<close>. The field \<open>printed\<close>
  is the output of \<^verbatim>\<open>main\<close>. A receive from a closed channel yields the zero value.
\<close>

datatype gen_state = GIdle | GLoop "goint list" | GDone

datatype sq_state = SIdle | SRecv | SSend goint | SClose | SDone

datatype pmain = PGen | PSq | PRecv nat | PExit

record pipe =
  gen_out :: "goint chan"
  sq_out :: "goint chan"
  gen_pc :: gen_state
  sq_pc :: sq_state
  pmain_pc :: pmain
  printed :: "goint list"

definition pipe_init :: pipe where
  "pipe_init =
     \<lparr>gen_out = make_chan 0, sq_out = make_chan 0, gen_pc = GIdle, sq_pc = SIdle,
      pmain_pc = PGen, printed = []\<rparr>"

text \<open>The goroutine started by \<^verbatim>\<open>gen\<close>.\<close>

definition gen_step :: "pipe \<Rightarrow> pipe outcome" where
  "gen_step s =
     (case gen_pc s of
        GIdle \<Rightarrow> Wait
      | GLoop [] \<Rightarrow>
          (case chan_close (gen_out s) of
             Some c \<Rightarrow> Next (s\<lparr>gen_out := c, gen_pc := GDone\<rparr>)
           | None \<Rightarrow> Crash CloseOfClosedChannel)
      | GLoop (n # ns) \<Rightarrow>
          if closed (gen_out s) then Crash SendOnClosedChannel
          else if sq_pc s = SRecv then Next (s\<lparr>gen_pc := GLoop ns, sq_pc := SSend n\<rparr>)
          else Wait
      | GDone \<Rightarrow> Wait)"

text \<open>
  The goroutine started by \<^verbatim>\<open>sq\<close>; in \<open>SSend n\<close> it has received \<open>n\<close> and is at
  \<^verbatim>\<open>out <- n * n\<close>.
\<close>

definition sq_step :: "pipe \<Rightarrow> pipe outcome" where
  "sq_step s =
     (case sq_pc s of
        SIdle \<Rightarrow> Wait
      | SRecv \<Rightarrow>
          if closed (gen_out s) then Next (s\<lparr>sq_pc := SClose\<rparr>)
          else (case gen_pc s of
                  GLoop (n # ns) \<Rightarrow> Next (s\<lparr>gen_pc := GLoop ns, sq_pc := SSend n\<rparr>)
                | _ \<Rightarrow> Wait)
      | SSend n \<Rightarrow>
          if closed (sq_out s) then Crash SendOnClosedChannel
          else (case pmain_pc s of
                  PRecv (Suc k) \<Rightarrow>
                    Next (s\<lparr>sq_pc := SRecv, pmain_pc := PRecv k, printed := printed s @ [n * n]\<rparr>)
                | _ \<Rightarrow> Wait)
      | SClose \<Rightarrow>
          (case chan_close (sq_out s) of
             Some c \<Rightarrow> Next (s\<lparr>sq_out := c, sq_pc := SDone\<rparr>)
           | None \<Rightarrow> Crash CloseOfClosedChannel)
      | SDone \<Rightarrow> Wait)"

definition pmain_step :: "goint list \<Rightarrow> nat \<Rightarrow> pipe \<Rightarrow> pipe outcome" where
  "pmain_step nums k s =
     (case pmain_pc s of
        PGen \<Rightarrow> Next (s\<lparr>gen_out := make_chan 0, gen_pc := GLoop nums, pmain_pc := PSq\<rparr>)
      | PSq \<Rightarrow> Next (s\<lparr>sq_out := make_chan 0, sq_pc := SRecv, pmain_pc := PRecv k\<rparr>)
      | PRecv 0 \<Rightarrow> Next (s\<lparr>pmain_pc := PExit\<rparr>)
      | PRecv (Suc r) \<Rightarrow>
          if closed (sq_out s) then Next (s\<lparr>pmain_pc := PRecv r, printed := printed s @ [0]\<rparr>)
          else (case sq_pc s of
                  SSend n \<Rightarrow>
                    Next (s\<lparr>sq_pc := SRecv, pmain_pc := PRecv r, printed := printed s @ [n * n]\<rparr>)
                | _ \<Rightarrow> Wait)
      | PExit \<Rightarrow> Wait)"

text \<open>
  Goroutine 0 is \<^verbatim>\<open>main\<close>, 1 is the goroutine of \<^verbatim>\<open>gen\<close>, 2 that of \<^verbatim>\<open>sq\<close>. When
  \<^verbatim>\<open>main\<close> has returned the program has exited.
\<close>

definition pipe_step :: "goint list \<Rightarrow> nat \<Rightarrow> pipe \<Rightarrow> nat \<Rightarrow> pipe outcome" where
  "pipe_step nums k s t =
     (if pmain_pc s = PExit then Wait
      else if t = 0 then pmain_step nums k s
      else if t = 1 then gen_step s
      else if t = 2 then sq_step s
      else Wait)"

text \<open>
  What is still to come out of the pipeline: the square that \<^verbatim>\<open>sq\<close> holds, and the numbers
  \<^verbatim>\<open>gen\<close> has not sent yet.
\<close>

definition gen_rest :: "goint list \<Rightarrow> gen_state \<Rightarrow> goint list" where
  "gen_rest nums g = (case g of GIdle \<Rightarrow> nums | GLoop ns \<Rightarrow> ns | GDone \<Rightarrow> [])"

definition sq_hand :: "sq_state \<Rightarrow> goint list" where
  "sq_hand q = (case q of SSend n \<Rightarrow> [n * n] | _ \<Rightarrow> [])"

definition recv_left :: "nat \<Rightarrow> pmain \<Rightarrow> nat" where
  "recv_left k m = (case m of PGen \<Rightarrow> k | PSq \<Rightarrow> k | PRecv r \<Rightarrow> r | PExit \<Rightarrow> 0)"

text \<open>
  The invariant of the pipeline: the goroutines exist from the calls of \<^verbatim>\<open>gen\<close> and
  \<^verbatim>\<open>sq\<close> on; each channel is closed exactly when its sender is done; \<^verbatim>\<open>sq\<close> closes only
  after \<^verbatim>\<open>gen\<close> has; \<^verbatim>\<open>main\<close> has printed one value for each receive done; and what is
  printed, held and unsent makes up the squares of \<open>nums\<close> in order, followed after the
  close by zero values only.
\<close>

definition pipe_inv :: "goint list \<Rightarrow> nat \<Rightarrow> pipe \<Rightarrow> bool" where
  "pipe_inv nums k s \<longleftrightarrow>
     (gen_pc s = GIdle \<longleftrightarrow> pmain_pc s = PGen) \<and>
     (sq_pc s = SIdle \<longleftrightarrow> pmain_pc s = PGen \<or> pmain_pc s = PSq) \<and>
     (closed (gen_out s) \<longleftrightarrow> gen_pc s = GDone) \<and>
     (closed (sq_out s) \<longleftrightarrow> sq_pc s = SDone) \<and>
     (sq_pc s = SClose \<or> sq_pc s = SDone \<longrightarrow> gen_pc s = GDone) \<and>
     length (printed s) + recv_left k (pmain_pc s) = k \<and>
     (if sq_pc s = SDone then \<exists>z. printed s = map (\<lambda>n. n * n) nums @ replicate z 0
      else printed s @ sq_hand (sq_pc s) @ map (\<lambda>n. n * n) (gen_rest nums (gen_pc s))
             = map (\<lambda>n. n * n) nums)"

text \<open>Every step lowers \<open>pipe_measure\<close>.\<close>

definition pipe_measure :: "goint list \<Rightarrow> nat \<Rightarrow> pipe \<Rightarrow> nat" where
  "pipe_measure nums k s =
     (case pmain_pc s of
        PGen \<Rightarrow> k + 2 * length nums + 6 | PSq \<Rightarrow> k + 4 | PRecv r \<Rightarrow> r + 1 | PExit \<Rightarrow> 0)
     + (case gen_pc s of GIdle \<Rightarrow> 0 | GLoop ns \<Rightarrow> 2 * length ns + 1 | GDone \<Rightarrow> 0)
     + (case sq_pc s of SIdle \<Rightarrow> 0 | SRecv \<Rightarrow> 2 | SSend n \<Rightarrow> 3 | SClose \<Rightarrow> 1 | SDone \<Rightarrow> 0)"

section \<open>A two-stage pipeline: workers that double, then \<^verbatim>\<open>sq\<close>\<close>

text \<open>
  The guide's stages put together as a pipeline of two stages: the input numbers come
  from \<^verbatim>\<open>gen\<close>, stage 1 is a group of goroutines running the guide's \<^verbatim>\<open>worker\<close> (which
  sends \<^verbatim>\<open>j * 2\<close> for each \<^verbatim>\<open>j\<close> it receives), stage 2 is the guide's \<^verbatim>\<open>sq\<close>, and
  \<^verbatim>\<open>main\<close> receives from the last channel as in the guide's pipeline:
  \<^verbatim>\<open>
  c := gen(2, 3)
  d := make(chan int, dcap)
  for w := 1; w <= numWorkers; w++ {
      go worker(w, c, d)
  }
  out := sq(d)
  fmt.Println(<-out)
  fmt.Println(<-out)
  \<close>
  The functions \<^verbatim>\<open>gen\<close>, \<^verbatim>\<open>worker\<close> and \<^verbatim>\<open>sq\<close> are those of the guide, with the states
  \<open>gen_state\<close>, \<open>wstate\<close> and \<open>sq_state\<close> as above. The arguments of \<^verbatim>\<open>gen\<close>, the number
  of workers, the capacity of the channel \<^verbatim>\<open>d\<close> between the stages (0 for an unbuffered
  channel) and the number of receives of \<^verbatim>\<open>main\<close> are the parameters \<open>nums\<close>,
  \<open>numWorkers\<close>, \<open>dcap\<close> and \<open>k\<close>. The channel \<^verbatim>\<open>c\<close> of \<^verbatim>\<open>gen\<close> and the channel
  \<^verbatim>\<open>out\<close> of \<^verbatim>\<open>sq\<close> are unbuffered. A value passes over an unbuffered channel in one
  joint step of the sender and the receiver. On \<^verbatim>\<open>c\<close> and on an unbuffered \<^verbatim>\<open>d\<close> one of
  the two is one of several workers, and the joint step is taken when the scheduler runs
  that worker, so that every pairing of sender and receiver is a schedule.
\<close>

datatype tmain = TGen | TSpawn nat | TSq | TRecv nat | TExit

record staged =
  st_c :: "goint chan"
  st_d :: "goint chan"
  st_out :: "goint chan"
  st_gen :: gen_state
  st_workers :: "worker list"
  st_sq :: sq_state
  st_main :: tmain
  st_printed :: "goint list"

definition staged_init :: "nat \<Rightarrow> staged" where
  "staged_init dcap =
     \<lparr>st_c = make_chan 0, st_d = make_chan dcap, st_out = make_chan 0, st_gen = GIdle,
      st_workers = [], st_sq = SIdle, st_main = TGen, st_printed = []\<rparr>"

text \<open>The goroutine of \<^verbatim>\<open>gen\<close>: its sends are the receives of the workers.\<close>

definition staged_gen :: "staged \<Rightarrow> staged outcome" where
  "staged_gen s =
     (case st_gen s of
        GIdle \<Rightarrow> Wait
      | GLoop [] \<Rightarrow>
          (case chan_close (st_c s) of
             Some c \<Rightarrow> Next (s\<lparr>st_c := c, st_gen := GDone\<rparr>)
           | None \<Rightarrow> Crash CloseOfClosedChannel)
      | GLoop (n # ns) \<Rightarrow> if closed (st_c s) then Crash SendOnClosedChannel else Wait
      | GDone \<Rightarrow> Wait)"

text \<open>
  Stage 1, the \<open>i\<close>-th \<^verbatim>\<open>worker\<close>: \<^verbatim>\<open>for j := range c { d <- j * 2 }\<close>. Its send
  goes into the buffer of \<^verbatim>\<open>d\<close> when there is room, and straight to \<^verbatim>\<open>sq\<close> when
  \<^verbatim>\<open>d\<close> is unbuffered and \<^verbatim>\<open>sq\<close> is at its receive.
\<close>

definition staged_worker :: "staged \<Rightarrow> nat \<Rightarrow> staged outcome" where
  "staged_worker s i =
     (if length (st_workers s) \<le> i then Wait
      else let w = st_workers s ! i in
        case wpc w of
          WRecv \<Rightarrow>
            if closed (st_c s) then Next (s\<lparr>st_workers := (st_workers s)[i := w\<lparr>wpc := WDone\<rparr>]\<rparr>)
            else (case st_gen s of
                    GLoop (n # ns) \<Rightarrow>
                      Next (s\<lparr>st_gen := GLoop ns,
                               st_workers := (st_workers s)[i := w\<lparr>wpc := WSend n\<rparr>]\<rparr>)
                  | _ \<Rightarrow> Wait)
        | WSend j \<Rightarrow>
            (case chan_send (st_d s) (j * 2) of
               Sent d \<Rightarrow>
                 Next (s\<lparr>st_d := d,
                          st_workers := (st_workers s)[i := \<lparr>wpc = WRecv, emitted = Suc (emitted w)\<rparr>]\<rparr>)
             | SendBlocks \<Rightarrow>
                 if cap (st_d s) = 0 \<and> st_sq s = SRecv
                 then Next (s\<lparr>st_sq := SSend (j * 2),
                               st_workers := (st_workers s)[i := \<lparr>wpc = WRecv, emitted = Suc (emitted w)\<rparr>]\<rparr>)
                 else Wait
             | SendPanics \<Rightarrow> Crash SendOnClosedChannel)
        | WDone \<Rightarrow> Wait)"

text \<open>Stage 2, the goroutine of \<^verbatim>\<open>sq\<close>: \<^verbatim>\<open>for n := range d { out <- n * n }; close(out)\<close>.\<close>

definition staged_sq :: "staged \<Rightarrow> staged outcome" where
  "staged_sq s =
     (case st_sq s of
        SIdle \<Rightarrow> Wait
      | SRecv \<Rightarrow>
          (case chan_recv (st_d s) of
             Received n d \<Rightarrow> Next (s\<lparr>st_d := d, st_sq := SSend n\<rparr>)
           | RecvClosed \<Rightarrow> Next (s\<lparr>st_sq := SClose\<rparr>)
           | RecvBlocks \<Rightarrow> Wait)
      | SSend n \<Rightarrow>
          if closed (st_out s) then Crash SendOnClosedChannel
          else (case st_main s of
                  TRecv (Suc r) \<Rightarrow>
                    Next (s\<lparr>st_sq := SRecv, st_main := TRecv r,
                             st_printed := st_printed s @ [n * n]\<rparr>)
                | _ \<Rightarrow> Wait)
      | SClose \<Rightarrow>
          (case chan_close (st_out s) of
             Some c \<Rightarrow> Next (s\<lparr>st_out := c, st_sq := SDone\<rparr>)
           | None \<Rightarrow> Crash CloseOfClosedChannel)
      | SDone \<Rightarrow> Wait)"

definition staged_main :: "goint list \<Rightarrow> nat \<Rightarrow> nat \<Rightarrow> staged \<Rightarrow> staged outcome" where
  "staged_main nums numWorkers k s =
     (case st_main s of
        TGen \<Rightarrow> Next (s\<lparr>st_c := make_chan 0, st_gen := GLoop nums, st_main := TSpawn 1\<rparr>)
      | TSpawn w \<Rightarrow>
          if w \<le> numWorkers
          then Next (s\<lparr>st_workers := st_workers s @ [\<lparr>wpc = WRecv, emitted = 0\<rparr>],
                        st_main := TSpawn (Suc w)\<rparr>)
          else Next (s\<lparr>st_main := TSq\<rparr>)
      | TSq \<Rightarrow> Next (s\<lparr>st_out := make_chan 0, st_sq := SRecv, st_main := TRecv k\<rparr>)
      | TRecv 0 \<Rightarrow> Next (s\<lparr>st_main := TExit\<rparr>)
      | TRecv (Suc r) \<Rightarrow>
          if closed (st_out s)
          then Next (s\<lparr>st_main := TRecv r, st_printed := st_printed s @ [0]\<rparr>)
          else (case st_sq s of
                  SSend n \<Rightarrow>
                    Next (s\<lparr>st_sq := SRecv, st_main := TRecv r,
                             st_printed := st_printed s @ [n * n]\<rparr>)
                | _ \<Rightarrow> Wait)
      | TExit \<Rightarrow> Wait)"

text \<open>
  Goroutine 0 is \<^verbatim>\<open>main\<close>, 1 is the goroutine of \<^verbatim>\<open>gen\<close>, 2 that of \<^verbatim>\<open>sq\<close>, and
  \<open>i + 3\<close> is the \<open>i\<close>-th worker started. When \<^verbatim>\<open>main\<close> has returned the program has
  exited.
\<close>

definition staged_step :: "goint list \<Rightarrow> nat \<Rightarrow> nat \<Rightarrow> staged \<Rightarrow> nat \<Rightarrow> staged outcome" where
  "staged_step nums numWorkers k s t =
     (if st_main s = TExit then Wait
      else if t = 0 then staged_main nums numWorkers k s
      else if t = 1 then staged_gen s
      else if t = 2 then staged_sq s
      else staged_worker s (t - 3))"

text \<open>
  What is still to come out of the two stages, from \<^verbatim>\<open>main\<close> back to \<^verbatim>\<open>gen\<close>: the square
  that \<^verbatim>\<open>sq\<close> holds, the squares owed for the doubled values buffered in \<^verbatim>\<open>d\<close> and for
  those the workers are about to send, and for the numbers \<^verbatim>\<open>gen\<close> has not sent yet.
\<close>

definition staged_flow :: "goint list \<Rightarrow> staged \<Rightarrow> goint list" where
  "staged_flow nums s =
     st_printed s @ sq_hand (st_sq s) @ map (\<lambda>v. v * v) (buf (st_d s))
       @ map (\<lambda>v. v * v) (inflight (st_workers s))
       @ map (\<lambda>x. (x * 2) * (x * 2)) (gen_rest nums (st_gen s))"

definition trecv_left :: "nat \<Rightarrow> tmain \<Rightarrow> nat" where
  "trecv_left k m = (case m of TRecv r \<Rightarrow> r | TExit \<Rightarrow> 0 | _ \<Rightarrow> k)"

text \<open>
  The invariant: the goroutines exist from their \<^verbatim>\<open>go\<close> statements on; \<^verbatim>\<open>c\<close> is closed
  exactly when \<^verbatim>\<open>gen\<close> is done, and \<^verbatim>\<open>d\<close> and \<^verbatim>\<open>out\<close> are never closed (no worker
  closes \<^verbatim>\<open>d\<close>, so \<^verbatim>\<open>sq\<close> never leaves its loop); a worker has left its loop only if
  \<^verbatim>\<open>gen\<close> is done; \<^verbatim>\<open>main\<close> has printed one value for each receive done; and what is
  printed, held, buffered and unsent makes up, in some order, the squares of the doubled
  numbers.
\<close>

definition workers_started :: "nat \<Rightarrow> tmain \<Rightarrow> nat \<Rightarrow> bool" where
  "workers_started W m n \<longleftrightarrow>
     (case m of TGen \<Rightarrow> n = 0 | TSpawn w \<Rightarrow> w \<le> Suc W \<and> Suc n = w | _ \<Rightarrow> n = W)"

definition staged_inv :: "goint list \<Rightarrow> nat \<Rightarrow> nat \<Rightarrow> staged \<Rightarrow> bool" where
  "staged_inv nums W k s \<longleftrightarrow>
     (st_gen s = GIdle \<longleftrightarrow> st_main s = TGen) \<and>
     (st_sq s = SIdle \<longleftrightarrow> st_main s = TGen \<or> (\<exists>w. st_main s = TSpawn w) \<or> st_main s = TSq) \<and>
     workers_started W (st_main s) (length (st_workers s)) \<and>
     \<not> closed (st_d s) \<and> \<not> closed (st_out s) \<and> st_sq s \<noteq> SClose \<and> st_sq s \<noteq> SDone \<and>
     (closed (st_c s) \<longleftrightarrow> st_gen s = GDone) \<and>
     ((\<exists>w \<in> set (st_workers s). wpc w = WDone) \<longrightarrow> st_gen s = GDone) \<and>
     length (st_printed s) + trecv_left k (st_main s) = k \<and>
     mset (staged_flow nums s) = mset (map (\<lambda>x. (x * 2) * (x * 2)) nums)"

text \<open>Every step lowers \<open>staged_measure\<close>.\<close>

definition staged_measure :: "goint list \<Rightarrow> nat \<Rightarrow> nat \<Rightarrow> staged \<Rightarrow> nat" where
  "staged_measure nums W k s =
     (case st_main s of
        TGen \<Rightarrow> 5 * length nums + 2 * W + k + 7
      | TSpawn w \<Rightarrow> 2 * (Suc W - w) + k + 5
      | TSq \<Rightarrow> k + 4
      | TRecv r \<Rightarrow> r + 1
      | TExit \<Rightarrow> 0)
     + (case st_gen s of GIdle \<Rightarrow> 0 | GLoop ns \<Rightarrow> 5 * length ns + 1 | GDone \<Rightarrow> 0)
     + 4 * length (inflight (st_workers s)) + active (st_workers s)
     + 3 * length (buf (st_d s))
     + (case st_sq s of SIdle \<Rightarrow> 0 | SRecv \<Rightarrow> 2 | SSend n \<Rightarrow> 3 | SClose \<Rightarrow> 1 | SDone \<Rightarrow> 0)"

section \<open>Bounded parallelism: a buffered channel as semaphore\<close>

text \<open>
  \<^verbatim>\<open>
  func main() {
      var wg sync.WaitGroup
      concurrency := 3
      sem := make(chan struct{}, concurrency) // A semaphore
      tasks := []int{1, 2, 3, 4, 5, 6, 7, 8, 9, 10}
      for _, task := range tasks {
          wg.Add(1)
          go func(taskID int) {
              defer wg.Done()
              sem <- struct{}{} // Acquire a slot
              defer func() { <-sem }() // Release the slot
              fmt.Printf("Processing task %d\n", taskID)
              time.Sleep(1 * time.Second)
          }(task)
      }
      wg.Wait()
  }
  \<close>
  \<open>concurrency\<close> (3 in the guide) and \<open>tasks\<close> (1 to 10 in the guide) are parameters. A task
  goroutine is at its acquire (\<open>TAcquire\<close>), holds a slot and works (\<open>TWork\<close>: the
  \<^verbatim>\<open>Printf\<close> and the \<^verbatim>\<open>Sleep\<close>), runs its deferred release (\<open>TRelease\<close>), then its deferred
  \<^verbatim>\<open>wg.Done()\<close> (\<open>TWgDone\<close>), and has returned (\<open>TReturned\<close>); deferred calls run last
  in, first out. \<^verbatim>\<open>wg.Add(1)\<close> and the \<^verbatim>\<open>go\<close> statement after it are one step of
  \<^verbatim>\<open>main\<close>, and \<^verbatim>\<open>wg.Wait()\<close> blocks until the counter is zero. \<open>processing\<close> is
  the output: the task numbers in the order printed.
\<close>

datatype tstate = TAcquire | TWork | TRelease | TWgDone | TReturned

record task =
  task_id :: goint
  tpc :: tstate

datatype bmain = BSpawn "goint list" | BWait | BExit

record bounded =
  sem :: "unit chan"
  wg :: nat
  running :: "task list"
  bmain_pc :: bmain
  processing :: "goint list"

definition bounded_init :: "nat \<Rightarrow> goint list \<Rightarrow> bounded" where
  "bounded_init concurrency tasks =
     \<lparr>sem = make_chan concurrency, wg = 0, running = [], bmain_pc = BSpawn tasks,
      processing = []\<rparr>"

definition task_step :: "bounded \<Rightarrow> nat \<Rightarrow> bounded outcome" where
  "task_step s i =
     (if length (running s) \<le> i then Wait
      else let t = running s ! i in
        case tpc t of
          TAcquire \<Rightarrow>
            (case chan_send (sem s) () of
               Sent c \<Rightarrow> Next (s\<lparr>sem := c, running := (running s)[i := t\<lparr>tpc := TWork\<rparr>]\<rparr>)
             | SendBlocks \<Rightarrow> Wait
             | SendPanics \<Rightarrow> Crash SendOnClosedChannel)
        | TWork \<Rightarrow>
            Next (s\<lparr>processing := processing s @ [task_id t],
                     running := (running s)[i := t\<lparr>tpc := TRelease\<rparr>]\<rparr>)
        | TRelease \<Rightarrow>
            (case chan_recv (sem s) of
               Received u c \<Rightarrow> Next (s\<lparr>sem := c, running := (running s)[i := t\<lparr>tpc := TWgDone\<rparr>]\<rparr>)
             | RecvClosed \<Rightarrow> Next (s\<lparr>running := (running s)[i := t\<lparr>tpc := TWgDone\<rparr>]\<rparr>)
             | RecvBlocks \<Rightarrow> Wait)
        | TWgDone \<Rightarrow>
            (if wg s = 0 then Crash NegativeWaitGroupCounter
             else Next (s\<lparr>wg := wg s - 1, running := (running s)[i := t\<lparr>tpc := TReturned\<rparr>]\<rparr>))
        | TReturned \<Rightarrow> Wait)"

definition bmain_step :: "bounded \<Rightarrow> bounded outcome" where
  "bmain_step s =
     (case bmain_pc s of
        BSpawn [] \<Rightarrow> Next (s\<lparr>bmain_pc := BWait\<rparr>)
      | BSpawn (task # rest) \<Rightarrow>
          Next (s\<lparr>wg := wg s + 1, running := running s @ [\<lparr>task_id = task, tpc = TAcquire\<rparr>],
                   bmain_pc := BSpawn rest\<rparr>)
      | BWait \<Rightarrow> if wg s = 0 then Next (s\<lparr>bmain_pc := BExit\<rparr>) else Wait
      | BExit \<Rightarrow> Wait)"

text \<open>Goroutine 0 is \<^verbatim>\<open>main\<close>, goroutine \<open>i + 1\<close> runs the \<open>i\<close>-th task.\<close>

definition bounded_step :: "bounded \<Rightarrow> nat \<Rightarrow> bounded outcome" where
  "bounded_step s t =
     (if bmain_pc s = BExit then Wait
      else if t = 0 then bmain_step s
      else task_step s (t - 1))"

text \<open>
  The instrumented counter: the number of goroutines that have acquired a slot and not yet
  released it.
\<close>

definition holding :: "task \<Rightarrow> bool" where
  "holding t \<longleftrightarrow> tpc t = TWork \<or> tpc t = TRelease"

definition holders :: "bounded \<Rightarrow> nat" where
  "holders s = length (filter holding (running s))"

text \<open>
  The invariant: the semaphore stays open with its capacity, its occupancy is the number
  of holders and at most the capacity, and the wait group counts the goroutines that have
  not returned.
\<close>

definition unreturned :: "task \<Rightarrow> bool" where
  "unreturned t \<longleftrightarrow> tpc t \<noteq> TReturned"

definition bounded_inv :: "nat \<Rightarrow> bounded \<Rightarrow> bool" where
  "bounded_inv K s \<longleftrightarrow>
     cap (sem s) = K \<and> \<not> closed (sem s) \<and> length (buf (sem s)) \<le> K
     \<and> holders s = length (buf (sem s))
     \<and> wg s = length (filter unreturned (running s))"

section \<open>A producer and a consumer: \<^verbatim>\<open>fibonacci\<close>\<close>

text \<open>
  \<^verbatim>\<open>
  func fibonacci(n int, c chan int) {
      x, y := 0, 1
      for i := 0; i < n; i++ {
          c <- x
          x, y = y, x+y
      }
      close(c) // Close the channel when done
  }

  func main() {
      c := make(chan int, 10)
      go fibonacci(cap(c), c)
      for i := range c { // Loop continues until channel is closed
          fmt.Println(i)
      }
  }
  \<close>
  The capacity of \<^verbatim>\<open>c\<close> (10 in the guide) is the parameter \<open>csize\<close>; \<^verbatim>\<open>fibonacci\<close> is
  called with \<open>n = cap(c)\<close>. \<open>FLoop i x y\<close> is the head of its loop with the values of its
  variables. \<open>fprinted\<close> is the output of \<^verbatim>\<open>main\<close>.
\<close>

datatype fib_state = FIdle | FLoop nat goint goint | FDone

datatype fmain = FStart | FRange | FExit

record fibprog =
  fch :: "goint chan"
  fib_pc :: fib_state
  fmain_pc :: fmain
  fprinted :: "goint list"

definition fib_init :: fibprog where
  "fib_init = \<lparr>fch = make_chan 0, fib_pc = FIdle, fmain_pc = FStart, fprinted = []\<rparr>"

definition fibonacci_step :: "nat \<Rightarrow> fibprog \<Rightarrow> fibprog outcome" where
  "fibonacci_step n s =
     (case fib_pc s of
        FIdle \<Rightarrow> Wait
      | FLoop i x y \<Rightarrow>
          if i < n
          then (case chan_send (fch s) x of
                  Sent c \<Rightarrow> Next (s\<lparr>fch := c, fib_pc := FLoop (Suc i) y (x + y)\<rparr>)
                | SendBlocks \<Rightarrow> Wait
                | SendPanics \<Rightarrow> Crash SendOnClosedChannel)
          else (case chan_close (fch s) of
                  Some c \<Rightarrow> Next (s\<lparr>fch := c, fib_pc := FDone\<rparr>)
                | None \<Rightarrow> Crash CloseOfClosedChannel)
      | FDone \<Rightarrow> Wait)"

definition fmain_step :: "nat \<Rightarrow> fibprog \<Rightarrow> fibprog outcome" where
  "fmain_step csize s =
     (case fmain_pc s of
        FStart \<Rightarrow> Next (s\<lparr>fch := make_chan csize, fib_pc := FLoop 0 0 1, fmain_pc := FRange\<rparr>)
      | FRange \<Rightarrow>
          (case chan_recv (fch s) of
             Received v c \<Rightarrow> Next (s\<lparr>fch := c, fprinted := fprinted s @ [v]\<rparr>)
           | RecvClosed \<Rightarrow> Next (s\<lparr>fmain_pc := FExit\<rparr>)
           | RecvBlocks \<Rightarrow> Wait)
      | FExit \<Rightarrow> Wait)"

text \<open>Goroutine 0 is \<^verbatim>\<open>main\<close>, goroutine 1 is \<^verbatim>\<open>fibonacci\<close>.\<close>

definition fib_step :: "nat \<Rightarrow> fibprog \<Rightarrow> nat \<Rightarrow> fibprog outcome" where
  "fib_step csize s t =
     (if fmain_pc s = FExit then Wait
      else if t = 0 then fmain_step csize s
      else if t = 1 then fibonacci_step (cap (fch s)) s
      else Wait)"

text \<open>
  The values \<^verbatim>\<open>fibonacci\<close> submits, in the order of its loop: \<open>fib_vars i\<close> are the values
  of \<^verbatim>\<open>x, y\<close> after \<open>i\<close> rounds, and \<open>submitted n\<close> lists the \<^verbatim>\<open>x\<close> of the first \<open>n\<close> rounds.
\<close>

fun fib_vars :: "nat \<Rightarrow> goint \<times> goint" where
  "fib_vars 0 = (0, 1)"
| "fib_vars (Suc i) = (case fib_vars i of (x, y) \<Rightarrow> (y, x + y))"

definition submitted :: "nat \<Rightarrow> goint list" where
  "submitted n = map (\<lambda>i. fst (fib_vars i)) [0..<n]"

text \<open>
  The invariant: before the \<^verbatim>\<open>go\<close> statement nothing is printed; in the loop the
  variables are those of round \<open>i\<close> and what is printed or buffered is what was submitted
  in the first \<open>i\<close> rounds; after the close it is all that was submitted, and \<^verbatim>\<open>main\<close>
  leaves its loop only when the buffer is empty.
\<close>

definition fib_inv :: "nat \<Rightarrow> fibprog \<Rightarrow> bool" where
  "fib_inv csize s \<longleftrightarrow>
     (fmain_pc s = FStart \<longrightarrow> fib_pc s = FIdle) \<and>
     (case fib_pc s of
        FIdle \<Rightarrow> fmain_pc s = FStart \<and> fprinted s = []
      | FLoop i x y \<Rightarrow>
          fmain_pc s = FRange \<and> cap (fch s) = csize \<and> \<not> closed (fch s) \<and> i \<le> csize
          \<and> fib_vars i = (x, y) \<and> fprinted s @ buf (fch s) = submitted i
      | FDone \<Rightarrow>
          fmain_pc s \<noteq> FStart \<and> cap (fch s) = csize \<and> closed (fch s)
          \<and> fprinted s @ buf (fch s) = submitted csize
          \<and> (fmain_pc s = FExit \<longrightarrow> buf (fch s) = []))"

text \<open>Every step lowers \<open>fib_measure\<close>.\<close>

definition fib_measure :: "nat \<Rightarrow> fibprog \<Rightarrow> nat" where
  "fib_measure csize s =
     (case fmain_pc s of FStart \<Rightarrow> 2 * csize + 3 | FRange \<Rightarrow> 1 | FExit \<Rightarrow> 0)
     + (case fib_pc s of FIdle \<Rightarrow> 0 | FLoop i x y \<Rightarrow> 2 * (csize - i) + 1 | FDone \<Rightarrow> 0)
     + length (buf (fch s))"

section \<open>Panic and recover: the robust server\<close>

text \<open>
  \<^verbatim>\<open>
  func mayPanic() {
      panic("a problem")
  }

  func server(workChan <-chan *Work) {
      for work := range workChan {
          go safelyDo(work)
      }
  }

  func safelyDo(work *Work) {
      defer func() {
          if err := recover(); err != nil {
              log.Printf("work failed: %s", err)
          }
      }()
      do(work)
  }
  \<close>
  The guide gives neither \<^verbatim>\<open>Work\<close> nor \<^verbatim>\<open>do\<close>, so the type of work items is a type
  variable and \<open>do\<close> is a parameter: a function telling, for each work item, whether the
  call \<^verbatim>\<open>do(work)\<close> returns or panics, and with which value (as \<^verbatim>\<open>%s\<close> prints it).
  A call ends in one of these two ways.
\<close>

datatype call = Returns | Panics string

definition mayPanic :: "unit \<Rightarrow> call" where
  "mayPanic u = Panics ''a problem''"

text \<open>
  \<^verbatim>\<open>safelyDo\<close> takes the log and gives back how the call ended and the log afterwards.
  The deferred function recovers a panic of \<^verbatim>\<open>do\<close> and writes one log line; the function
  has no result value.
\<close>

definition safelyDo :: "('w \<Rightarrow> call) \<Rightarrow> 'w \<Rightarrow> string list \<Rightarrow> call \<times> string list" where
  "safelyDo do work lg =
     (case do work of
        Returns \<Rightarrow> (Returns, lg)
      | Panics err \<Rightarrow> (Returns, lg @ [''work failed: '' @ err]))"

text \<open>
  \<^verbatim>\<open>server\<close> starts one goroutine per work item received. A handler is a work item with
  a flag telling whether its \<^verbatim>\<open>safelyDo\<close> has run. A panic that leaves a goroutine
  crashes the program.
\<close>

record 'w server =
  work_chan :: "'w chan"
  handlers :: "('w \<times> bool) list"
  server_done :: bool
  logged :: "string list"

definition server_init :: "'w chan \<Rightarrow> 'w server" where
  "server_init c = \<lparr>work_chan = c, handlers = [], server_done = False, logged = []\<rparr>"

definition server_loop :: "'w server \<Rightarrow> 'w server outcome" where
  "server_loop s =
     (if server_done s then Wait
      else case chan_recv (work_chan s) of
             Received work c \<Rightarrow> Next (s\<lparr>work_chan := c, handlers := handlers s @ [(work, False)]\<rparr>)
           | RecvClosed \<Rightarrow> Next (s\<lparr>server_done := True\<rparr>)
           | RecvBlocks \<Rightarrow> Wait)"

definition handler_step :: "('w \<Rightarrow> call) \<Rightarrow> 'w server \<Rightarrow> nat \<Rightarrow> 'w server outcome" where
  "handler_step do s i =
     (if length (handlers s) \<le> i then Wait
      else case handlers s ! i of
             (work, True) \<Rightarrow> Wait
           | (work, False) \<Rightarrow>
               (case safelyDo do work (logged s) of
                  (Returns, lg) \<Rightarrow> Next (s\<lparr>handlers := (handlers s)[i := (work, True)], logged := lg\<rparr>)
                | (Panics err, lg) \<Rightarrow> Crash (Panic err)))"

text \<open>Goroutine 0 is \<^verbatim>\<open>server\<close>, goroutine \<open>i + 1\<close> is the \<open>i\<close>-th handler started.\<close>

definition server_step :: "('w \<Rightarrow> call) \<Rightarrow> 'w server \<Rightarrow> nat \<Rightarrow> 'w server outcome" where
  "server_step do s t = (if t = 0 then server_loop s else handler_step do s (t - 1))"

text \<open>The log lines owed to the handlers that have run.\<close>

definition failure_line :: "('w \<Rightarrow> call) \<Rightarrow> 'w \<times> bool \<Rightarrow> string list" where
  "failure_line do h =
     (case h of
        (work, True) \<Rightarrow> (case do work of Returns \<Rightarrow> [] | Panics err \<Rightarrow> [''work failed: '' @ err])
      | (work, False) \<Rightarrow> [])"

text \<open>
  The invariant: the work items handed to handlers and those still queued are the items
  queued at the start, in order; the log is, up to order, the lines owed; the channel is
  closed if and only if it was; and the server has left its loop only on an empty channel.
\<close>

definition server_inv :: "('w \<Rightarrow> call) \<Rightarrow> 'w chan \<Rightarrow> 'w server \<Rightarrow> bool" where
  "server_inv do c s \<longleftrightarrow>
     map fst (handlers s) @ buf (work_chan s) = buf c
     \<and> mset (logged s) = mset (concat (map (failure_line do) (handlers s)))
     \<and> closed (work_chan s) = closed c
     \<and> (server_done s \<longrightarrow> buf (work_chan s) = [])"

definition pending :: "'w \<times> bool \<Rightarrow> bool" where
  "pending h \<longleftrightarrow> \<not> snd h"

text \<open>Every step lowers \<open>server_measure\<close>.\<close>

definition server_measure :: "'w server \<Rightarrow> nat" where
  "server_measure s =
     2 * length (buf (work_chan s)) + length (filter pending (handlers s))
     + (if server_done s then 0 else 1)"

section \<open>Closing a channel\<close>

lemma recv_n_closed:
  "closed c \<Longrightarrow> recv_n n c = (rs, c') \<Longrightarrow>
     closed c' \<and> rs = map Item (take n (buf c)) @ replicate (n - length (buf c)) ClosedEmpty"
proof (induction n arbitrary: c rs c')
  case 0
  then show ?case by simp
next
  case (Suc n)
  show ?case
  proof (cases "buf c")
    case Nil
    with Suc.prems obtain rs0 where r: "recv_n n c = (rs0, c')" and rs: "rs = ClosedEmpty # rs0"
      by (auto simp: chan_recv_def split: prod.splits)
    from Suc.IH [OF Suc.prems(1) r] Nil rs show ?thesis
      by (simp add: replicate_Suc [symmetric] del: replicate_Suc)
  next
    case (Cons x xs)
    with Suc.prems obtain rs0 where r: "recv_n n (c\<lparr>buf := xs\<rparr>) = (rs0, c')"
      and rs: "rs = Item x # rs0"
      by (auto simp: chan_recv_def split: prod.splits)
    have "closed (c\<lparr>buf := xs\<rparr>)" using Suc.prems(1) by simp
    from Suc.IH [OF this r] Cons rs show ?thesis by simp
  qed
qed

text \<open>
  Claim C6. Once a channel has been closed, every later send fails at once with the
  ``send on closed channel'' panic: it neither inserts nor blocks, whatever number of
  receives came in between. The receives still hand out every value that was buffered
  before the close, oldest first, and report ``closed and empty'' only after the last of
  them.
\<close>

theorem closed_chan_put_fails_get_drains:
  assumes "chan_close c0 = Some c" and "recv_n n c = (rs, c')"
  shows "chan_send c' v = SendPanics
       \<and> rs = map Item (take n (buf c0)) @ replicate (n - length (buf c0)) ClosedEmpty"
proof -
  from assms(1) have c: "closed c" "buf c = buf c0"
    by (auto simp: chan_close_def split: if_splits)
  from recv_n_closed [OF c(1) assms(2)] c(2) show ?thesis
    by (simp add: chan_send_def)
qed

theorem closed_chan_put_fails_get_drains_witness:
  "chan_close \<lparr>buf = [7, 8 :: goint], cap = 2, closed = False\<rparr>
     = Some \<lparr>buf = [7, 8], cap = 2, closed = True\<rparr>
   \<and> recv_n 3 \<lparr>buf = [7, 8 :: goint], cap = 2, closed = True\<rparr>
     = ([Item 7, Item 8, ClosedEmpty], \<lparr>buf = [], cap = 2, closed = True\<rparr>)
   \<and> chan_send \<lparr>buf = [], cap = 2, closed = True\<rparr> (9 :: goint) = SendPanics"
proof -
  have a: "chan_close \<lparr>buf = [7, 8 :: goint], cap = 2, closed = False\<rparr>
     = Some \<lparr>buf = [7, 8], cap = 2, closed = True\<rparr>"
    by (simp add: chan_close_def)
  have b: "recv_n 3 \<lparr>buf = [7, 8 :: goint], cap = 2, closed = True\<rparr>
     = ([Item 7, Item 8, ClosedEmpty], \<lparr>buf = [], cap = 2, closed = True\<rparr>)"
    by (simp add: numeral_3_eq_3 chan_recv_def)
  from closed_chan_put_fails_get_drains [OF a b, of 9] a b show ?thesis by simp
qed

section \<open>Invariants along a schedule\<close>

text \<open>
  A property kept by every step holds after every schedule; if no step from a state with
  the property panics then no schedule panics; and if every step lowers a measure then
  no schedule is longer than the measure of the initial state.
\<close>

lemma run_invariant:
  assumes "\<And>s t s'. I s \<Longrightarrow> step s t = Next s' \<Longrightarrow> I s'"
  shows "I s \<Longrightarrow> run step s ts = Next s' \<Longrightarrow> I s'"
proof (induction ts arbitrary: s)
  case Nil
  then show ?case by simp
next
  case (Cons t ts)
  then show ?case using assms by (auto split: outcome.splits)
qed

lemma run_no_crash:
  assumes "\<And>s t s'. I s \<Longrightarrow> step s t = Next s' \<Longrightarrow> I s'"
    and "\<And>s t p. I s \<Longrightarrow> step s t \<noteq> Crash p"
  shows "I s \<Longrightarrow> run step s ts \<noteq> Crash p"
proof (induction ts arbitrary: s)
  case Nil
  then show ?case by simp
next
  case (Cons t ts)
  then show ?case using assms by (auto split: outcome.splits)
qed

lemma run_bounded:
  fixes m :: "'s \<Rightarrow> nat"
  assumes "\<And>s t s'. I s \<Longrightarrow> step s t = Next s' \<Longrightarrow> I s'"
    and "\<And>s t s'. I s \<Longrightarrow> step s t = Next s' \<Longrightarrow> m s' < m s"
  shows "I s \<Longrightarrow> run step s ts = Next s' \<Longrightarrow> length ts + m s' \<le> m s"
proof (induction ts arbitrary: s)
  case Nil
  then show ?case by simp
next
  case (Cons t ts)
  from Cons.prems(2) obtain s1 where s1: "step s t = Next s1" and r: "run step s1 ts = Next s'"
    by (auto split: outcome.splits)
  from assms(1) [OF Cons.prems(1) s1] have "I s1" .
  from Cons.IH [OF this r] assms(2) [OF Cons.prems(1) s1] show ?case by simp
qed

lemma sum_list_map_update:
  fixes f :: "'a \<Rightarrow> nat"
  shows "i < length ws \<Longrightarrow>
     sum_list (map f (ws[i := w])) + f (ws ! i) = sum_list (map f ws) + f w"
proof (induction ws arbitrary: i)
  case Nil
  then show ?case by simp
next
  case (Cons a ws)
  show ?case
  proof (cases i)
    case 0
    then show ?thesis by simp
  next
    case (Suc k)
    with Cons.prems have "k < length ws" by simp
    from Cons.IH [OF this] Suc show ?thesis by simp
  qed
qed

lemma filter_update_length:
  "i < length xs \<Longrightarrow>
     length (filter P (xs[i := x])) + (if P (xs ! i) then 1 else 0)
       = length (filter P xs) + (if P x then 1 else 0)"
proof (induction xs arbitrary: i)
  case Nil
  then show ?case by simp
next
  case (Cons a xs)
  show ?case
  proof (cases i)
    case 0
    then show ?thesis by simp
  next
    case (Suc j)
    with Cons.prems have "j < length xs" by simp
    from Cons.IH [OF this] Suc show ?thesis by simp
  qed
qed

section \<open>The worker pool delivers every result exactly once\<close>

text \<open>The steps of the pool, one case for each statement that can run.\<close>

lemma pool_step_cases [consumes 1, case_names spawn spawned put put_end close_jobs collect collect_closed leave take finish emit]:
  assumes "pool_step W N s t = Next s'"
  obtains
    (spawn) w where "main_pc s = Spawn w" "w \<le> W"
      "s' = s\<lparr>workers := workers s @ [\<lparr>wpc = WRecv, emitted = 0\<rparr>], main_pc := Spawn (Suc w)\<rparr>"
  | (spawned) w where "main_pc s = Spawn w" "\<not> w \<le> W" "s' = s\<lparr>main_pc := SendJobs 1\<rparr>"
  | (put) j where "main_pc s = SendJobs j" "j \<le> N" "\<not> closed (jobs s)"
      "length (buf (jobs s)) < cap (jobs s)"
      "s' = s\<lparr>jobs := (jobs s)\<lparr>buf := buf (jobs s) @ [of_nat j]\<rparr>, main_pc := SendJobs (Suc j)\<rparr>"
  | (put_end) j where "main_pc s = SendJobs j" "\<not> j \<le> N" "s' = s\<lparr>main_pc := CloseJobs\<rparr>"
  | (close_jobs) "main_pc s = CloseJobs" "\<not> closed (jobs s)"
      "s' = s\<lparr>jobs := (jobs s)\<lparr>closed := True\<rparr>, main_pc := Collect 1\<rparr>"
  | (collect) a v r where "main_pc s = Collect a" "a \<le> N" "buf (results s) = v # r"
      "s' = s\<lparr>results := (results s)\<lparr>buf := r\<rparr>, observed := observed s @ [v],
               main_pc := Collect (Suc a)\<rparr>"
  | (collect_closed) a where "main_pc s = Collect a" "a \<le> N" "buf (results s) = []"
      "closed (results s)" "s' = s\<lparr>observed := observed s @ [0], main_pc := Collect (Suc a)\<rparr>"
  | (leave) a where "main_pc s = Collect a" "\<not> a \<le> N" "s' = s\<lparr>main_pc := Exit\<rparr>"
  | (take) i j r where "main_pc s \<noteq> Exit" "i < length (workers s)" "wpc (workers s ! i) = WRecv"
      "buf (jobs s) = j # r"
      "s' = s\<lparr>jobs := (jobs s)\<lparr>buf := r\<rparr>,
               workers := (workers s)[i := (workers s ! i)\<lparr>wpc := WSend j\<rparr>]\<rparr>"
  | (finish) i where "main_pc s \<noteq> Exit" "i < length (workers s)" "wpc (workers s ! i) = WRecv"
      "buf (jobs s) = []" "closed (jobs s)"
      "s' = s\<lparr>workers := (workers s)[i := (workers s ! i)\<lparr>wpc := WDone\<rparr>]\<rparr>"
  | (emit) i j where "main_pc s \<noteq> Exit" "i < length (workers s)" "wpc (workers s ! i) = WSend j"
      "\<not> closed (results s)" "length (buf (results s)) < cap (results s)"
      "s' = s\<lparr>results := (results s)\<lparr>buf := buf (results s) @ [j * 2]\<rparr>,
               workers := (workers s)[i := \<lparr>wpc = WRecv, emitted = Suc (emitted (workers s ! i))\<rparr>]\<rparr>"
proof (cases "t = 0")
  case True
  with assms have m: "main_step W N s = Next s'" and ne: "main_pc s \<noteq> Exit"
    by (auto simp: pool_step_def split: if_splits)
  show ?thesis
  proof (cases "main_pc s")
    case (Spawn w)
    with m spawn spawned show ?thesis by (cases "w \<le> W") (auto simp: main_step_def)
  next
    case (SendJobs j)
    with m put put_end show ?thesis
      by (cases "j \<le> N") (auto simp: main_step_def chan_send_def split: if_splits)
  next
    case CloseJobs
    with m close_jobs show ?thesis by (auto simp: main_step_def chan_close_def split: if_splits)
  next
    case (Collect a)
    with m collect collect_closed leave show ?thesis
      by (cases "a \<le> N") (auto simp: main_step_def chan_recv_def split: if_splits list.splits)
  next
    case Exit
    with ne show ?thesis by simp
  qed
next
  case False
  with assms have w: "worker_step s (t - 1) = Next s'" and ne: "main_pc s \<noteq> Exit"
    by (auto simp: pool_step_def split: if_splits)
  then have len: "t - 1 < length (workers s)"
    by (auto simp: worker_step_def split: if_splits)
  show ?thesis
  proof (cases "wpc (workers s ! (t - 1))")
    case WRecv
    with w len ne take [of "t - 1"] finish [of "t - 1"] show ?thesis
      by (auto simp: worker_step_def Let_def chan_recv_def split: if_splits list.splits)
  next
    case (WSend j)
    with w len ne emit [of "t - 1" j] show ?thesis
      by (auto simp: worker_step_def Let_def chan_send_def split: if_splits)
  next
    case WDone
    with w len show ?thesis by (auto simp: worker_step_def Let_def)
  qed
qed

lemma inflight_append [simp]: "inflight (ws @ vs) = inflight ws @ inflight vs"
  by (simp add: inflight_def)

lemma inflight_update:
  "i < length ws \<Longrightarrow>
     mset (inflight (ws[i := w])) + mset (wout (ws ! i)) = mset (inflight ws) + mset (wout w)"
proof (induction ws arbitrary: i)
  case Nil
  then show ?case by simp
next
  case (Cons a ws)
  show ?case
  proof (cases i)
    case 0
    then show ?thesis by (simp add: inflight_def)
  next
    case (Suc k)
    with Cons.prems have "k < length ws" by simp
    from Cons.IH [OF this] Suc show ?thesis by (simp add: inflight_def)
  qed
qed

lemma inflight_single:
  "i < length ws \<Longrightarrow> length ws \<le> 1 \<Longrightarrow> inflight (ws[i := w]) = wout w \<and> inflight ws = wout (ws ! i)"
  by (cases ws) (auto simp: inflight_def)

lemma pool_inv_init: "pool_inv W N (pool_init N)"
  by (simp add: pool_inv_def inv_chan_def inv_pc_def inv_done_def inv_emitted_def flow_def
      doubled_def unsent_def pool_init_def make_chan_def inflight_def)

lemma inv_chan_step:
  assumes "pool_step W N s t = Next s'" "inv_chan N s"
  shows "inv_chan N s'"
  using assms by (cases rule: pool_step_cases) (auto simp: inv_chan_def)

lemma flow_length: "mset (flow N s) = mset (doubled N) \<Longrightarrow> length (flow N s) = N"
  using mset_eq_length [of "flow N s" "doubled N"] by (simp add: doubled_def)

lemma inv_pc_step:
  assumes "pool_step W N s t = Next s'" "inv_pc W N s" "mset (flow N s) = mset (doubled N)"
  shows "inv_pc W N s'"
  using assms(1)
proof (cases rule: pool_step_cases)
  case (leave a)
  from flow_length [OF assms(3)] have "length (observed s) \<le> N" by (simp add: flow_def)
  with leave assms(2) show ?thesis by (auto simp: inv_pc_def)
qed (use assms(2) in \<open>auto simp: inv_pc_def split: mpc.splits\<close>)

lemma flow_step:
  assumes "pool_step W N s t = Next s'" "inv_chan N s" "inv_pc W N s"
  shows "mset (flow N s') = mset (flow N s)"
  using assms(1)
proof (cases rule: pool_step_cases)
  case (put j)
  then have "[j..<Suc N] = j # [Suc j..<Suc N]" by (simp add: upt_conv_Cons)
  with put show ?thesis by (simp add: flow_def unsent_def)
next
  case (collect_closed a)
  with assms(2) show ?thesis by (simp add: inv_chan_def)
next
  case (take i j r)
  from inflight_update [OF take(2), of "(workers s ! i)\<lparr>wpc := WSend j\<rparr>"] take(3)
  have "mset (inflight ((workers s)[i := (workers s ! i)\<lparr>wpc := WSend j\<rparr>]))
          = mset (inflight (workers s)) + {#j * 2#}"
    by (simp add: wout_def)
  with take show ?thesis by (simp add: flow_def)
next
  case (finish i)
  from inflight_update [OF finish(2), of "(workers s ! i)\<lparr>wpc := WDone\<rparr>"] finish(3)
  have "mset (inflight ((workers s)[i := (workers s ! i)\<lparr>wpc := WDone\<rparr>]))
          = mset (inflight (workers s))"
    by (simp add: wout_def)
  with finish show ?thesis by (simp add: flow_def)
next
  case (emit i j)
  from inflight_update [OF emit(2), of "\<lparr>wpc = WRecv, emitted = Suc (emitted (workers s ! i))\<rparr>"]
    emit(3)
  have "mset (inflight ((workers s)[i := \<lparr>wpc = WRecv, emitted = Suc (emitted (workers s ! i))\<rparr>]))
          + {#j * 2#} = mset (inflight (workers s))"
    by (simp add: wout_def)
  with emit show ?thesis by (simp add: flow_def flip: \<open>_ = mset (inflight (workers s))\<close>)
qed (use assms(3) in \<open>auto simp: flow_def unsent_def inflight_def wout_def inv_pc_def\<close>)

lemma inv_done_step:
  assumes "pool_step W N s t = Next s'" "inv_done s" "inv_chan N s"
  shows "inv_done s'"
  using assms(1)
proof (cases rule: pool_step_cases)
  case (put j)
  with assms(2) show ?thesis by (auto simp: inv_done_def)
next
  case (take i j r)
  with assms(2) show ?thesis
    by (auto simp: inv_done_def dest!: set_update_subset_insert [THEN subsetD])
next
  case (finish i)
  then show ?thesis by (auto simp: inv_done_def)
next
  case (emit i j)
  with assms(2) show ?thesis
    by (auto simp: inv_done_def dest!: set_update_subset_insert [THEN subsetD])
qed (use assms(2) in \<open>auto simp: inv_done_def\<close>)

lemma inv_emitted_step:
  assumes "pool_step W N s t = Next s'" "inv_emitted s" "inv_chan N s"
  shows "inv_emitted s'"
  using assms(1)
proof (cases rule: pool_step_cases)
  case (take i j r)
  from sum_list_map_update [OF take(2), of emitted "(workers s ! i)\<lparr>wpc := WSend j\<rparr>"]
  have "sum_list (map emitted ((workers s)[i := (workers s ! i)\<lparr>wpc := WSend j\<rparr>]))
          = sum_list (map emitted (workers s))" by simp
  with take assms(2) show ?thesis by (simp add: inv_emitted_def)
next
  case (finish i)
  from sum_list_map_update [OF finish(2), of emitted "(workers s ! i)\<lparr>wpc := WDone\<rparr>"]
  have "sum_list (map emitted ((workers s)[i := (workers s ! i)\<lparr>wpc := WDone\<rparr>]))
          = sum_list (map emitted (workers s))" by simp
  with finish assms(2) show ?thesis by (simp add: inv_emitted_def)
next
  case (emit i j)
  from sum_list_map_update
    [OF emit(2), of emitted "\<lparr>wpc = WRecv, emitted = Suc (emitted (workers s ! i))\<rparr>"]
  have "sum_list (map emitted
          ((workers s)[i := \<lparr>wpc = WRecv, emitted = Suc (emitted (workers s ! i))\<rparr>]))
          = Suc (sum_list (map emitted (workers s)))" by simp
  with emit assms(2) show ?thesis by (simp add: inv_emitted_def)
next
  case (collect_closed a)
  with assms(3) show ?thesis by (simp add: inv_chan_def)
qed (use assms(2) in \<open>auto simp: inv_emitted_def\<close>)

lemma pool_inv_step:
  assumes "pool_inv W N s" "pool_step W N s t = Next s'"
  shows "pool_inv W N s'"
  using assms inv_chan_step [OF assms(2)] inv_pc_step [OF assms(2)] flow_step [OF assms(2)]
    inv_done_step [OF assms(2)] inv_emitted_step [OF assms(2)]
  by (simp add: pool_inv_def)

lemma pool_no_crash:
  assumes "pool_inv W N s"
  shows "pool_step W N s t \<noteq> Crash p"
proof -
  from assms have c: "\<not> closed (results s)"
    and j: "closed (jobs s) \<longleftrightarrow> (\<exists>a. main_pc s = Collect a) \<or> main_pc s = Exit"
    by (simp_all add: pool_inv_def inv_chan_def)
  show ?thesis
  proof (cases "t = 0")
    case True
    with j show ?thesis
      by (cases "main_pc s")
        (auto simp: pool_step_def main_step_def chan_send_def chan_close_def chan_recv_def
          split: list.splits)
  next
    case False
    with c show ?thesis
      by (auto simp: pool_step_def worker_step_def Let_def chan_send_def chan_recv_def
          split: wstate.splits list.splits)
  qed
qed

lemma inflight_nonempty:
  "inflight ws \<noteq> [] \<Longrightarrow> \<exists>i < length ws. \<exists>j. wpc (ws ! i) = WSend j"
proof (induction ws)
  case Nil
  then show ?case by (simp add: inflight_def)
next
  case (Cons w ws)
  show ?case
  proof (cases "wout w = []")
    case True
    with Cons.prems have "inflight ws \<noteq> []" by (simp add: inflight_def)
    from Cons.IH [OF this] obtain i j where "i < length ws" "wpc (ws ! i) = WSend j" by blast
    then have "Suc i < length (w # ws) \<and> wpc ((w # ws) ! Suc i) = WSend j" by simp
    then show ?thesis by blast
  next
    case False
    then obtain j where "wpc w = WSend j" by (auto simp: wout_def split: wstate.splits)
    then have "0 < length (w # ws) \<and> wpc ((w # ws) ! 0) = WSend j" by simp
    then show ?thesis by blast
  qed
qed

lemma inflight_empty:
  "inflight ws = [] \<Longrightarrow> w \<in> set ws \<Longrightarrow> wpc w \<noteq> WSend j"
  by (auto simp: inflight_def wout_def split: wstate.splits)

lemma pool_progress:
  assumes inv: "pool_inv W N s" and W: "1 \<le> W" and ne: "main_pc s \<noteq> Exit"
  shows "\<exists>t s'. pool_step W N s t = Next s'"
proof -
  from inv have ch: "cap (jobs s) = N" "cap (results s) = N" "\<not> closed (results s)"
    "closed (jobs s) \<longleftrightarrow> (\<exists>a. main_pc s = Collect a) \<or> main_pc s = Exit"
    and pc: "inv_pc W N s" and dn: "inv_done s"
    by (simp_all add: pool_inv_def inv_chan_def)
  from inv have len: "length (flow N s) = N" by (simp add: pool_inv_def flow_length)
  have main: "\<exists>s'. pool_step W N s 0 = Next s' \<Longrightarrow> ?thesis" by blast
  show ?thesis
  proof (cases "main_pc s")
    case (Spawn w)
    then show ?thesis by (intro main) (simp add: pool_step_def main_step_def)
  next
    case (SendJobs j)
    show ?thesis
    proof (cases "j \<le> N")
      case True
      with len SendJobs have "length (buf (jobs s)) < N" by (simp add: flow_def unsent_def)
      with True SendJobs ch show ?thesis
        by (intro main) (simp add: pool_step_def main_step_def chan_send_def)
    next
      case False
      with SendJobs show ?thesis by (intro main) (simp add: pool_step_def main_step_def)
    qed
  next
    case CloseJobs
    with ch show ?thesis by (intro main) (simp add: pool_step_def main_step_def chan_close_def)
  next
    case (Collect a)
    with pc have lw: "length (workers s) = W" and a: "a = Suc (length (observed s))"
      by (simp_all add: inv_pc_def)
    show ?thesis
    proof (cases "a \<le> N")
      case False
      with Collect show ?thesis by (intro main) (simp add: pool_step_def main_step_def)
    next
      case True
      show ?thesis
      proof (cases "buf (results s)")
        case (Cons v r)
        with True Collect show ?thesis
          by (intro main) (simp add: pool_step_def main_step_def chan_recv_def)
      next
        case Nil
        show ?thesis
        proof (cases "inflight (workers s) = []")
          case False
          from inflight_nonempty [OF this] obtain i j
            where i: "i < length (workers s)" "wpc (workers s ! i) = WSend j" by blast
          from a True have "0 < N" by simp
          with i Nil ch True Collect have "\<exists>s'. pool_step W N s (Suc i) = Next s'"
            by (simp add: pool_step_def worker_step_def Let_def chan_send_def)
          then show ?thesis by blast
        next
          case empty: True
          with len Nil Collect a True have "buf (jobs s) \<noteq> []"
            by (auto simp: flow_def unsent_def)
          then obtain j r where jb: "buf (jobs s) = j # r" by (cases "buf (jobs s)") auto
          from lw W have i: "0 < length (workers s)" by simp
          then have mem: "workers s ! 0 \<in> set (workers s)" by simp
          from dn jb mem have "wpc (workers s ! 0) \<noteq> WDone" by (auto simp: inv_done_def)
          moreover from inflight_empty [OF empty mem] have "\<And>j. wpc (workers s ! 0) \<noteq> WSend j" .
          ultimately have "wpc (workers s ! 0) = WRecv" by (cases "wpc (workers s ! 0)") auto
          with i jb Collect have "\<exists>s'. pool_step W N s (Suc 0) = Next s'"
            by (simp add: pool_step_def worker_step_def Let_def chan_recv_def)
          then show ?thesis by blast
        qed
      qed
    qed
  next
    case Exit
    with ne show ?thesis by simp
  qed
qed

lemma inflight_update_length:
  assumes "i < length ws"
  shows "length (inflight (ws[i := w])) + length (wout (ws ! i))
       = length (inflight ws) + length (wout w)"
proof -
  from inflight_update [OF assms, of w]
  have "size (mset (inflight (ws[i := w])) + mset (wout (ws ! i)))
      = size (mset (inflight ws) + mset (wout w))" by simp
  then show ?thesis by simp
qed

lemma active_append [simp]: "active (ws @ vs) = active ws + active vs"
  by (simp add: active_def)

lemma pool_measure_step:
  assumes "pool_step W N s t = Next s'"
  shows "pool_measure W N s' < pool_measure W N s"
  using assms
proof (cases rule: pool_step_cases)
  case (spawn w)
  then show ?thesis
    by (simp add: pool_measure_def main_left_def unsent_def inflight_def wout_def active_def)
next
  case (put j)
  then have "[j..<Suc N] = j # [Suc j..<Suc N]" by (simp add: upt_conv_Cons)
  with put show ?thesis by (simp add: pool_measure_def main_left_def unsent_def)
next
  case (take i j r)
  let ?w = "(workers s ! i)\<lparr>wpc := WSend j\<rparr>"
  from inflight_update_length [OF take(2), of ?w] take(3)
  have 1: "length (inflight ((workers s)[i := ?w])) = Suc (length (inflight (workers s)))"
    by (simp add: wout_def)
  from sum_list_map_update [OF take(2), of "\<lambda>w. if wpc w = WDone then 0 else 1" ?w] take(3)
  have 2: "active ((workers s)[i := ?w]) = active (workers s)" by (simp add: active_def)
  from take 1 2 show ?thesis by (simp add: pool_measure_def)
next
  case (finish i)
  let ?w = "(workers s ! i)\<lparr>wpc := WDone\<rparr>"
  from inflight_update_length [OF finish(2), of ?w] finish(3)
  have 1: "length (inflight ((workers s)[i := ?w])) = length (inflight (workers s))"
    by (simp add: wout_def)
  from sum_list_map_update [OF finish(2), of "\<lambda>w. if wpc w = WDone then 0 else 1" ?w] finish(3)
  have 2: "Suc (active ((workers s)[i := ?w])) = active (workers s)" by (simp add: active_def)
  from finish 1 2 show ?thesis by (simp add: pool_measure_def)
next
  case (emit i j)
  let ?w = "\<lparr>wpc = WRecv, emitted = Suc (emitted (workers s ! i))\<rparr>"
  from inflight_update_length [OF emit(2), of ?w] emit(3)
  have 1: "Suc (length (inflight ((workers s)[i := ?w]))) = length (inflight (workers s))"
    by (simp add: wout_def)
  from sum_list_map_update [OF emit(2), of "\<lambda>w. if wpc w = WDone then 0 else 1" ?w] emit(3)
  have 2: "active ((workers s)[i := ?w]) = active (workers s)" by (simp add: active_def)
  from emit 1 2 show ?thesis by (simp add: pool_measure_def)
qed (auto simp: pool_measure_def main_left_def unsent_def)

lemma pool_measure_init: "pool_measure W N (pool_init N) = 2 * W + 4 * N + 4"
  by (simp add: pool_measure_def pool_init_def make_chan_def main_left_def unsent_def inflight_def active_def)

lemma pool_exit_flow:
  assumes "pool_inv W N s" "main_pc s = Exit"
  shows "flow N s = observed s"
proof -
  from assms have "length (flow N s) = N" "length (observed s) = N"
    by (simp_all add: pool_inv_def flow_length inv_pc_def)
  then show ?thesis by (simp add: flow_def)
qed

lemma doubled_distinct:
  assumes "N < 2 ^ 63"
  shows "distinct (doubled N)"
proof -
  have "inj_on (\<lambda>j. (of_nat j * 2 :: goint)) (set [1..<Suc N])"
  proof (rule inj_onI)
    fix a b assume a: "a \<in> set [1..<Suc N]" and b: "b \<in> set [1..<Suc N]"
      and eq: "(of_nat a * 2 :: goint) = of_nat b * 2"
    from a b assms have lt: "a * 2 < 2 ^ 64" "b * 2 < 2 ^ 64" by auto
    from eq have "(of_nat (a * 2) :: goint) = of_nat (b * 2)" by simp
    then have "take_bit 64 (a * 2) = take_bit 64 (b * 2)"
      by (simp only: word_of_nat_eq_iff) simp
    with lt show "a = b" by (simp add: take_bit_nat_eq_self)
  qed
  then show ?thesis unfolding doubled_def by (simp add: distinct_map)
qed

lemma flow_step_single:
  assumes "pool_step W N s t = Next s'" "inv_chan N s" "inv_pc W N s" "length (workers s) \<le> 1"
  shows "flow N s' = flow N s"
  using assms(1)
proof (cases rule: pool_step_cases)
  case (put j)
  then have "[j..<Suc N] = j # [Suc j..<Suc N]" by (simp add: upt_conv_Cons)
  with put show ?thesis by (simp add: flow_def unsent_def)
next
  case (collect_closed a)
  with assms(2) show ?thesis by (simp add: inv_chan_def)
next
  case (take i j r)
  from inflight_single [OF take(2) assms(4), of "(workers s ! i)\<lparr>wpc := WSend j\<rparr>"] take
  show ?thesis by (simp add: flow_def wout_def)
next
  case (finish i)
  from inflight_single [OF finish(2) assms(4), of "(workers s ! i)\<lparr>wpc := WDone\<rparr>"] finish
  show ?thesis by (simp add: flow_def wout_def)
next
  case (emit i j)
  from inflight_single [OF emit(2) assms(4),
      of "\<lparr>wpc = WRecv, emitted = Suc (emitted (workers s ! i))\<rparr>"] emit
  show ?thesis by (simp add: flow_def wout_def)
qed (use assms(3) in \<open>auto simp: flow_def unsent_def inflight_def wout_def inv_pc_def\<close>)

lemma pool_reach_inv:
  "run (pool_step W N) (pool_init N) sched = Next s \<Longrightarrow> pool_inv W N s"
  by (rule run_invariant [where I = "pool_inv W N" and step = "pool_step W N"])
    (auto intro: pool_inv_step pool_inv_init)

lemma pool_reach_no_crash: "run (pool_step W N) (pool_init N) sched \<noteq> Crash p"
  by (rule run_no_crash [where I = "pool_inv W N"])
    (auto intro: pool_inv_step pool_inv_init dest: pool_no_crash)

lemma pool_reach_bounded:
  assumes "run (pool_step W N) (pool_init N) sched = Next s"
  shows "length sched \<le> 2 * W + 4 * N + 4"
proof -
  have "length sched + pool_measure W N s \<le> pool_measure W N (pool_init N)"
    by (rule run_bounded [where I = "\<lambda>s. True" and step = "pool_step W N"])
      (auto intro: pool_measure_step assms)
  then show ?thesis by (simp add: pool_measure_init)
qed

text \<open>
  Claim C1. In the worker pool with \<open>W \<ge> 1\<close> workers and \<open>N \<ge> 0\<close> jobs (the job numbers
  \<open>1, \<dots>, N\<close> are the sequence numbers of the tasks, and the result of job \<open>j\<close> is
  \<open>j * 2\<close>), under every interleaving: nothing panics; the program cannot run for more
  than \<open>2 * W + 4 * N + 4\<close> steps and is never stuck before \<^verbatim>\<open>main\<close> returns, so
  \<^verbatim>\<open>main\<close> does return; and when it returns it has received exactly \<open>N\<close> results,
  which are the results of the jobs \<open>1, \<dots>, N\<close>, each once, in some order. As long as
  \<open>N\<close> fits the machine integer (\<open>N < 2 ^ 63\<close>) the results are pairwise distinct, so
  each names its job.
\<close>

theorem pool_every_job_exactly_once:
  assumes "1 \<le> W"
  shows "run (pool_step W N) (pool_init N) sched \<noteq> Crash p \<and>
    (run (pool_step W N) (pool_init N) sched = Next s \<longrightarrow>
       length sched \<le> 2 * W + 4 * N + 4 \<and>
       (main_pc s \<noteq> Exit \<longrightarrow> (\<exists>t s'. pool_step W N s t = Next s')) \<and>
       (main_pc s = Exit \<longrightarrow>
          length (observed s) = N \<and>
          mset (observed s) = mset (map (\<lambda>j. of_nat j * 2) [1..<Suc N]) \<and>
          (N < 2 ^ 63 \<longrightarrow> distinct (observed s))))"
proof (intro conjI impI)
  show "run (pool_step W N) (pool_init N) sched \<noteq> Crash p" by (rule pool_reach_no_crash)
next
  assume r: "run (pool_step W N) (pool_init N) sched = Next s"
  then show "length sched \<le> 2 * W + 4 * N + 4" by (rule pool_reach_bounded)
  from r have inv: "pool_inv W N s" by (rule pool_reach_inv)
  {
    assume "main_pc s \<noteq> Exit"
    with inv assms show "\<exists>t s'. pool_step W N s t = Next s'" by (intro pool_progress)
  }
  {
    assume e: "main_pc s = Exit"
    with inv have f: "flow N s = observed s" by (rule pool_exit_flow)
    from inv e show "length (observed s) = N" by (simp add: pool_inv_def inv_pc_def)
    from inv f show m: "mset (observed s) = mset (map (\<lambda>j. of_nat j * 2) [1..<Suc N])"
      by (simp add: pool_inv_def doubled_def)
    {
      assume "N < 2 ^ 63"
      then have "distinct (doubled N)" by (rule doubled_distinct)
      with m show "distinct (observed s)"
        using mset_eq_imp_distinct_iff [of "observed s" "doubled N"] by (simp add: doubled_def)
    }
  }
qed

theorem pool_every_job_exactly_once_witness:
  "(1 :: nat) \<le> 3
   \<and> run (pool_step 3 10) (pool_init 10)
       (replicate 16 0 @ [1, 2, 3, 3, 2, 1, 1, 2, 3, 1, 2, 3, 1, 2, 3, 1, 2, 3, 1, 1] @ replicate 11 0)
     = Next \<lparr>jobs = \<lparr>buf = [], cap = 10, closed = True\<rparr>,
        results = \<lparr>buf = [], cap = 10, closed = False\<rparr>,
        workers = [\<lparr>wpc = WRecv, emitted = 4\<rparr>, \<lparr>wpc = WRecv, emitted = 3\<rparr>,
          \<lparr>wpc = WRecv, emitted = 3\<rparr>],
        main_pc = Exit, observed = [6, 4, 2, 8, 10, 12, 14, 16, 18, 20]\<rparr>
   \<and> mset [6, 4, 2, 8, 10, 12, 14, 16, 18, 20 :: goint] = mset (map (\<lambda>j. of_nat j * 2) [1..<Suc 10])
   \<and> distinct [6, 4, 2, 8, 10, 12, 14, 16, 18, 20 :: goint]"
proof -
  let ?sched = "replicate 16 0 @ [1, 2, 3, 3, 2, 1, 1, 2, 3, 1, 2, 3, 1, 2, 3, 1, 2, 3, 1, 1] @ replicate 11 (0 :: nat)"
  let ?final = "\<lparr>jobs = \<lparr>buf = [], cap = 10, closed = True\<rparr>,
        results = \<lparr>buf = [], cap = 10, closed = False\<rparr>,
        workers = [\<lparr>wpc = WRecv, emitted = 4\<rparr>, \<lparr>wpc = WRecv, emitted = 3\<rparr>,
          \<lparr>wpc = WRecv, emitted = 3\<rparr>],
        main_pc = Exit, observed = [6, 4, 2, 8, 10, 12, 14, 16, 18, 20]\<rparr>"
  have w: "(1 :: nat) \<le> 3" by simp
  have e: "run (pool_step 3 10) (pool_init 10) ?sched = Next ?final" by code_simp
  from pool_every_job_exactly_once [OF w, of 10 ?sched SendOnClosedChannel ?final] e
  show ?thesis by simp
qed

text \<open>
  Claim C7, as stated, fails on the guide's fan-in in one point: the merged channel
  \<^verbatim>\<open>results\<close> is never closed, also not when \<^verbatim>\<open>jobs\<close> is closed and all three
  workers have returned. \<^verbatim>\<open>main\<close> counts \<^verbatim>\<open>numJobs\<close> receives instead of ranging over
  \<^verbatim>\<open>results\<close>. In the interleaving below the first worker does all ten jobs and then
  all three workers leave their loops.
\<close>

theorem pool_results_never_closed_counterexample:
  "map_option (map wpc \<circ> workers) (reached (run (pool_step 3 10) (pool_init 10)
       (replicate 16 0 @ concat (replicate 10 [1, 1]) @ [1, 2, 3])))
     = Some [WDone, WDone, WDone]
   \<and> map_option (closed \<circ> jobs) (reached (run (pool_step 3 10) (pool_init 10)
       (replicate 16 0 @ concat (replicate 10 [1, 1]) @ [1, 2, 3]))) = Some True
   \<and> map_option (closed \<circ> results) (reached (run (pool_step 3 10) (pool_init 10)
       (replicate 16 0 @ concat (replicate 10 [1, 1]) @ [1, 2, 3]))) = Some False"
  by code_simp

text \<open>
  Claim C7, amended. In the fan-in of the worker pool (the workers send on the one shared
  channel \<^verbatim>\<open>results\<close>), under every interleaving and so for every order in which the
  workers finish: \<^verbatim>\<open>results\<close> is never closed; the number of values \<^verbatim>\<open>main\<close> has
  received plus the number still buffered equals the sum of the numbers of values the
  workers have sent; and when \<^verbatim>\<open>main\<close> returns it has received exactly
  \<^verbatim>\<open>numJobs\<close> values, which is that sum.
\<close>

theorem pool_fan_in_counts:
  assumes "run (pool_step W N) (pool_init N) sched = Next s"
  shows "\<not> closed (results s)
    \<and> length (observed s) + length (buf (results s)) = sum_list (map emitted (workers s))
    \<and> (main_pc s = Exit \<longrightarrow>
         length (observed s) = N \<and> sum_list (map emitted (workers s)) = N)"
proof -
  from assms have inv: "pool_inv W N s" by (rule pool_reach_inv)
  then have 1: "\<not> closed (results s)"
    and 2: "length (observed s) + length (buf (results s)) = sum_list (map emitted (workers s))"
    by (simp_all add: pool_inv_def inv_chan_def inv_emitted_def)
  {
    assume e: "main_pc s = Exit"
    with inv have "flow N s = observed s" by (rule pool_exit_flow)
    then have "buf (results s) = []" by (simp add: flow_def)
    moreover from inv e have "length (observed s) = N" by (simp add: pool_inv_def inv_pc_def)
    ultimately have "length (observed s) = N \<and> sum_list (map emitted (workers s)) = N"
      using 2 by simp
  }
  with 1 2 show ?thesis by blast
qed

theorem pool_fan_in_counts_witness:
  "run (pool_step 3 10) (pool_init 10)
       (replicate 16 0 @ [1, 2, 3, 3, 2, 1, 1, 2, 3, 1, 2, 3, 1, 2, 3, 1, 2, 3, 1, 1] @ replicate 11 0)
     = Next \<lparr>jobs = \<lparr>buf = [], cap = 10, closed = True\<rparr>,
        results = \<lparr>buf = [], cap = 10, closed = False\<rparr>,
        workers = [\<lparr>wpc = WRecv, emitted = 4\<rparr>, \<lparr>wpc = WRecv, emitted = 3\<rparr>,
          \<lparr>wpc = WRecv, emitted = 3\<rparr>],
        main_pc = Exit, observed = [6, 4, 2, 8, 10, 12, 14, 16, 18, 20]\<rparr>
   \<and> length [6, 4, 2, 8, 10, 12, 14, 16, 18, 20 :: goint] = 10
   \<and> sum_list [4, 3, 3 :: nat] = 10"
proof -
  let ?sched = "replicate 16 0 @ [1, 2, 3, 3, 2, 1, 1, 2, 3, 1, 2, 3, 1, 2, 3, 1, 2, 3, 1, 1] @ replicate 11 (0 :: nat)"
  let ?final = "\<lparr>jobs = \<lparr>buf = [], cap = 10, closed = True\<rparr>,
        results = \<lparr>buf = [], cap = 10, closed = False\<rparr>,
        workers = [\<lparr>wpc = WRecv, emitted = 4\<rparr>, \<lparr>wpc = WRecv, emitted = 3\<rparr>,
          \<lparr>wpc = WRecv, emitted = 3\<rparr>],
        main_pc = Exit, observed = [6, 4, 2, 8, 10, 12, 14, 16, 18, 20]\<rparr>"
  have e: "run (pool_step 3 10) (pool_init 10) ?sched = Next ?final" by code_simp
  from pool_fan_in_counts [OF e] e show ?thesis by simp
qed

section \<open>The pipeline squares its input in order\<close>

lemma pipe_step_cases [consumes 1, case_names call_gen call_sq return recv_zero hand_over feed
    gen_close sq_end sq_close]:
  assumes "pipe_step nums k s t = Next s'"
  obtains
    (call_gen) "pmain_pc s = PGen"
      "s' = s\<lparr>gen_out := make_chan 0, gen_pc := GLoop nums, pmain_pc := PSq\<rparr>"
  | (call_sq) "pmain_pc s = PSq"
      "s' = s\<lparr>sq_out := make_chan 0, sq_pc := SRecv, pmain_pc := PRecv k\<rparr>"
  | (return) "pmain_pc s = PRecv 0" "s' = s\<lparr>pmain_pc := PExit\<rparr>"
  | (recv_zero) r where "pmain_pc s = PRecv (Suc r)" "closed (sq_out s)"
      "s' = s\<lparr>pmain_pc := PRecv r, printed := printed s @ [0]\<rparr>"
  | (hand_over) r n where "pmain_pc s = PRecv (Suc r)" "sq_pc s = SSend n" "\<not> closed (sq_out s)"
      "s' = s\<lparr>sq_pc := SRecv, pmain_pc := PRecv r, printed := printed s @ [n * n]\<rparr>"
  | (feed) n ns where "pmain_pc s \<noteq> PExit" "gen_pc s = GLoop (n # ns)" "sq_pc s = SRecv"
      "\<not> closed (gen_out s)" "s' = s\<lparr>gen_pc := GLoop ns, sq_pc := SSend n\<rparr>"
  | (gen_close) "pmain_pc s \<noteq> PExit" "gen_pc s = GLoop []" "\<not> closed (gen_out s)"
      "s' = s\<lparr>gen_out := (gen_out s)\<lparr>closed := True\<rparr>, gen_pc := GDone\<rparr>"
  | (sq_end) "pmain_pc s \<noteq> PExit" "sq_pc s = SRecv" "closed (gen_out s)"
      "s' = s\<lparr>sq_pc := SClose\<rparr>"
  | (sq_close) "pmain_pc s \<noteq> PExit" "sq_pc s = SClose" "\<not> closed (sq_out s)"
      "s' = s\<lparr>sq_out := (sq_out s)\<lparr>closed := True\<rparr>, sq_pc := SDone\<rparr>"
proof -
  from assms have ne: "pmain_pc s \<noteq> PExit" and t: "t = 0 \<or> t = 1 \<or> t = 2"
    by (auto simp: pipe_step_def split: if_splits)
  from t consider "t = 0" | "t = 1" | "t = 2" by blast
  then show ?thesis
  proof cases
    case 1
    with assms ne have m: "pmain_step nums k s = Next s'" by (simp add: pipe_step_def)
    show ?thesis
    proof (cases "pmain_pc s")
      case PGen
      with m call_gen show ?thesis by (simp add: pmain_step_def)
    next
      case PSq
      with m call_sq show ?thesis by (simp add: pmain_step_def)
    next
      case (PRecv r)
      show ?thesis
      proof (cases r)
        case 0
        with m PRecv return show ?thesis by (simp add: pmain_step_def)
      next
        case (Suc r')
        with m PRecv recv_zero [of r'] hand_over [of r'] show ?thesis
          by (auto simp: pmain_step_def split: if_splits sq_state.splits)
      qed
    next
      case PExit
      with ne show ?thesis by simp
    qed
  next
    case 2
    with assms ne have g: "gen_step s = Next s'" by (simp add: pipe_step_def)
    with ne feed gen_close show ?thesis
      by (auto simp: gen_step_def chan_close_def split: gen_state.splits list.splits if_splits)
  next
    case 3
    with assms ne have q: "sq_step s = Next s'" by (simp add: pipe_step_def)
    show ?thesis
    proof (cases "sq_pc s")
      case SRecv
      with q ne feed sq_end show ?thesis
        by (auto simp: sq_step_def split: gen_state.splits list.splits if_splits)
    next
      case (SSend n)
      with q ne hand_over show ?thesis
        by (auto simp: sq_step_def split: pmain.splits nat.splits if_splits)
    next
      case SClose
      with q ne sq_close show ?thesis
        by (auto simp: sq_step_def chan_close_def split: if_splits)
    qed (use q in \<open>auto simp: sq_step_def\<close>)
  qed
qed

lemma pipe_inv_init: "pipe_inv nums k pipe_init"
  by (simp add: pipe_inv_def pipe_init_def make_chan_def recv_left_def sq_hand_def gen_rest_def)

lemma pipe_inv_step:
  assumes "pipe_inv nums k s" "pipe_step nums k s t = Next s'"
  shows "pipe_inv nums k s'"
  using assms(2)
proof (cases rule: pipe_step_cases)
  case call_gen
  with assms(1) show ?thesis
    by (auto simp: pipe_inv_def make_chan_def recv_left_def sq_hand_def gen_rest_def)
next
  case call_sq
  with assms(1) show ?thesis
    by (auto simp: pipe_inv_def make_chan_def recv_left_def sq_hand_def gen_rest_def)
next
  case return
  with assms(1) show ?thesis by (auto simp: pipe_inv_def recv_left_def)
next
  case (recv_zero r)
  with assms(1) obtain z where z: "printed s = map (\<lambda>n. n * n) nums @ replicate z 0"
    by (auto simp: pipe_inv_def)
  then have "printed s @ [0] = map (\<lambda>n. n * n) nums @ replicate (Suc z) 0"
    by (simp add: replicate_append_same)
  then have "\<exists>z. printed s @ [0] = map (\<lambda>n. n * n) nums @ replicate z 0" by blast
  with recv_zero assms(1) show ?thesis by (simp add: pipe_inv_def recv_left_def)
next
  case (hand_over r n)
  with assms(1) show ?thesis by (auto simp: pipe_inv_def recv_left_def sq_hand_def)
next
  case (feed n ns)
  with assms(1) show ?thesis by (auto simp: pipe_inv_def recv_left_def sq_hand_def gen_rest_def)
next
  case gen_close
  with assms(1) show ?thesis by (auto simp: pipe_inv_def recv_left_def sq_hand_def gen_rest_def)
next
  case sq_end
  with assms(1) show ?thesis by (auto simp: pipe_inv_def recv_left_def sq_hand_def gen_rest_def)
next
  case sq_close
  with assms(1) have "printed s = map (\<lambda>n. n * n) nums @ replicate 0 0"
    by (auto simp: pipe_inv_def sq_hand_def gen_rest_def)
  then have "\<exists>z. printed s = map (\<lambda>n. n * n) nums @ replicate z 0" by blast
  with sq_close assms(1) show ?thesis by (simp add: pipe_inv_def recv_left_def)
qed

lemma pipe_no_crash:
  assumes "pipe_inv nums k s"
  shows "pipe_step nums k s t \<noteq> Crash p"
proof -
  from assms have c: "closed (gen_out s) \<longleftrightarrow> gen_pc s = GDone" "closed (sq_out s) \<longleftrightarrow> sq_pc s = SDone"
    by (simp_all add: pipe_inv_def)
  then show ?thesis
    by (auto simp: pipe_step_def pmain_step_def gen_step_def sq_step_def chan_close_def
        split: pmain.splits nat.splits gen_state.splits sq_state.splits list.splits)
qed

lemma pipe_measure_step:
  assumes "pipe_step nums k s t = Next s'"
  shows "pipe_measure nums k s' < pipe_measure nums k s"
  using assms by (cases rule: pipe_step_cases) (auto simp: pipe_measure_def)

lemma pipe_progress:
  assumes inv: "pipe_inv nums k s" and ne: "pmain_pc s \<noteq> PExit"
  shows "\<exists>t s'. pipe_step nums k s t = Next s'"
proof -
  have main: "\<exists>s'. pipe_step nums k s 0 = Next s' \<Longrightarrow> ?thesis" by blast
  have gen: "\<exists>s'. pipe_step nums k s 1 = Next s' \<Longrightarrow> ?thesis" by blast
  have sq: "\<exists>s'. pipe_step nums k s 2 = Next s' \<Longrightarrow> ?thesis" by blast
  show ?thesis
  proof (cases "pmain_pc s")
    case PGen
    then show ?thesis by (intro main) (simp add: pipe_step_def pmain_step_def)
  next
    case PSq
    then show ?thesis by (intro main) (simp add: pipe_step_def pmain_step_def)
  next
    case PExit
    with ne show ?thesis by simp
  next
    case (PRecv r)
    show ?thesis
    proof (cases r)
      case 0
      with PRecv show ?thesis by (intro main) (simp add: pipe_step_def pmain_step_def)
    next
      case (Suc r')
      from inv PRecv have idle: "gen_pc s \<noteq> GIdle" "sq_pc s \<noteq> SIdle"
        and cl: "closed (gen_out s) \<longleftrightarrow> gen_pc s = GDone" "closed (sq_out s) \<longleftrightarrow> sq_pc s = SDone"
        by (auto simp: pipe_inv_def)
      show ?thesis
      proof (cases "sq_pc s")
        case SIdle
        with idle show ?thesis by simp
      next
        case (SSend n)
        with PRecv Suc cl show ?thesis
          by (intro main) (simp add: pipe_step_def pmain_step_def)
      next
        case SClose
        with PRecv cl show ?thesis
          by (intro sq) (simp add: pipe_step_def sq_step_def chan_close_def)
      next
        case SDone
        with PRecv Suc cl show ?thesis
          by (intro main) (simp add: pipe_step_def pmain_step_def)
      next
        case SRecv
        show ?thesis
        proof (cases "gen_pc s")
          case GIdle
          with idle show ?thesis by simp
        next
          case GDone
          with SRecv PRecv cl show ?thesis
            by (intro sq) (simp add: pipe_step_def sq_step_def)
        next
          case (GLoop ns)
          with SRecv PRecv cl show ?thesis
            by (intro gen) (cases ns; simp add: pipe_step_def gen_step_def chan_close_def)
        qed
      qed
    qed
  qed
qed

lemma pipe_reach_inv:
  "run (pipe_step nums k) pipe_init sched = Next s \<Longrightarrow> pipe_inv nums k s"
  by (rule run_invariant [where I = "pipe_inv nums k" and step = "pipe_step nums k"])
    (auto intro: pipe_inv_step pipe_inv_init)

lemma pipe_reach_no_crash: "run (pipe_step nums k) pipe_init sched \<noteq> Crash p"
  by (rule run_no_crash [where I = "pipe_inv nums k"])
    (auto intro: pipe_inv_step pipe_inv_init dest: pipe_no_crash)

lemma pipe_reach_bounded:
  assumes "run (pipe_step nums k) pipe_init sched = Next s"
  shows "length sched \<le> k + 2 * length nums + 6"
proof -
  have "length sched + pipe_measure nums k s \<le> pipe_measure nums k pipe_init"
    by (rule run_bounded [where I = "\<lambda>s. True" and step = "pipe_step nums k"])
      (auto intro: pipe_measure_step assms)
  then show ?thesis by (simp add: pipe_measure_def pipe_init_def)
qed

lemma pipe_printed_prefix:
  assumes "pipe_inv nums k s"
  shows "prefix (printed s) (map (\<lambda>n. n * n) nums @ replicate (k - length nums) 0)"
proof (cases "sq_pc s = SDone")
  case True
  with assms obtain z where z: "printed s = map (\<lambda>n. n * n) nums @ replicate z 0"
    by (auto simp: pipe_inv_def)
  from assms have "length (printed s) \<le> k" by (simp add: pipe_inv_def)
  then have "length nums + z \<le> k" unfolding z by simp
  then have d: "k - length nums = z + (k - length nums - z)" by simp
  have "map (\<lambda>n. n * n) nums @ replicate (k - length nums) (0 :: goint)
      = printed s @ replicate (k - length nums - z) 0"
    by (subst d) (simp only: z replicate_add append_assoc)
  then show ?thesis by (rule prefixI)
next
  case False
  with assms have "printed s @ sq_hand (sq_pc s) @ map (\<lambda>n. n * n) (gen_rest nums (gen_pc s))
      = map (\<lambda>n. n * n) nums" by (simp add: pipe_inv_def)
  from this [symmetric] have "prefix (printed s) (map (\<lambda>n. n * n) nums)" by (rule prefixI)
  then show ?thesis by (rule prefix_prefix)
qed

lemma pipe_closed_after_all:
  assumes "pipe_inv nums k s" "closed (sq_out s)"
  shows "prefix (map (\<lambda>n. n * n) nums) (printed s)"
proof -
  from assms have "sq_pc s = SDone" by (simp add: pipe_inv_def)
  with assms(1) obtain z where "printed s = map (\<lambda>n. n * n) nums @ replicate z 0"
    by (auto simp: pipe_inv_def)
  then show ?thesis by (rule prefixI)
qed

lemma pipe_exit_output:
  assumes "pipe_inv nums k s" "pmain_pc s = PExit"
  shows "printed s = take k (map (\<lambda>n. n * n) nums) @ replicate (k - length nums) 0"
proof -
  from assms have len: "length (printed s) = k" by (simp add: pipe_inv_def recv_left_def)
  from pipe_printed_prefix [OF assms(1)] obtain rest
    where r: "map (\<lambda>n. n * n) nums @ replicate (k - length nums) 0 = printed s @ rest"
    by (auto simp: prefix_def)
  have "take k (printed s @ rest) = printed s" using len by simp
  then have "take k (map (\<lambda>n. n * n) nums @ replicate (k - length nums) 0) = printed s"
    by (simp only: r)
  then show ?thesis by simp
qed

lemma pipe_exit_closed:
  assumes "pipe_inv nums k s" "pmain_pc s = PExit" "length nums < k"
  shows "closed (sq_out s)"
proof (rule ccontr)
  assume "\<not> closed (sq_out s)"
  with assms(1) have "sq_pc s \<noteq> SDone" by (simp add: pipe_inv_def)
  with assms(1) have "printed s @ sq_hand (sq_pc s) @ map (\<lambda>n. n * n) (gen_rest nums (gen_pc s))
      = map (\<lambda>n. n * n) nums" by (simp add: pipe_inv_def)
  from arg_cong [OF this, of length] have "length (printed s) \<le> length nums" by simp
  moreover from assms have "length (printed s) = k" by (simp add: pipe_inv_def recv_left_def)
  ultimately show False using assms(3) by simp
qed

text \<open>
  Claim C10. For every list \<open>nums\<close> and every interleaving, \<^verbatim>\<open>sq(gen(nums...))\<close> hands
  to its consumer the squares of \<open>nums\<close>, in the order of \<open>nums\<close>, and nothing else; it
  closes its output only after the last square, and a consumer that receives more than
  \<open>length nums\<close> times finds the output closed (and reads zero values from then on).
  No interleaving panics, every interleaving is finite, and none is stuck before
  \<^verbatim>\<open>main\<close> has returned. So what the consumer prints is the sequential
  \<open>map (\<lambda>n. n * n) nums\<close>, cut or padded to its \<open>k\<close> receives.
\<close>

theorem pipeline_is_map_square:
  "run (pipe_step nums k) pipe_init sched \<noteq> Crash p \<and>
   (run (pipe_step nums k) pipe_init sched = Next s \<longrightarrow>
      length sched \<le> k + 2 * length nums + 6 \<and>
      (pmain_pc s \<noteq> PExit \<longrightarrow> (\<exists>t s'. pipe_step nums k s t = Next s')) \<and>
      prefix (printed s) (map (\<lambda>n. n * n) nums @ replicate (k - length nums) 0) \<and>
      (closed (sq_out s) \<longrightarrow> prefix (map (\<lambda>n. n * n) nums) (printed s)) \<and>
      (pmain_pc s = PExit \<longrightarrow>
         printed s = take k (map (\<lambda>n. n * n) nums) @ replicate (k - length nums) 0 \<and>
         (length nums < k \<longrightarrow> closed (sq_out s))))"
proof (intro conjI impI)
  show "run (pipe_step nums k) pipe_init sched \<noteq> Crash p" by (rule pipe_reach_no_crash)
next
  assume r: "run (pipe_step nums k) pipe_init sched = Next s"
  then show "length sched \<le> k + 2 * length nums + 6" by (rule pipe_reach_bounded)
  from r have inv: "pipe_inv nums k s" by (rule pipe_reach_inv)
  then show "prefix (printed s) (map (\<lambda>n. n * n) nums @ replicate (k - length nums) 0)"
    by (rule pipe_printed_prefix)
  {
    assume "pmain_pc s \<noteq> PExit"
    with inv show "\<exists>t s'. pipe_step nums k s t = Next s'" by (rule pipe_progress)
  }
  {
    assume "closed (sq_out s)"
    with inv show "prefix (map (\<lambda>n. n * n) nums) (printed s)" by (rule pipe_closed_after_all)
  }
  {
    assume e: "pmain_pc s = PExit"
    with inv show "printed s = take k (map (\<lambda>n. n * n) nums) @ replicate (k - length nums) 0"
      by (rule pipe_exit_output)
    {
      assume "length nums < k"
      with inv e show "closed (sq_out s)" by (rule pipe_exit_closed)
    }
  }
qed

theorem pipeline_is_map_square_witness:
  "run (pipe_step [2, 3] 3) pipe_init [0, 0, 1, 0, 1, 0, 1, 2, 2, 0, 0]
     = Next \<lparr>gen_out = \<lparr>buf = [], cap = 0, closed = True\<rparr>,
         sq_out = \<lparr>buf = [], cap = 0, closed = True\<rparr>,
         gen_pc = GDone, sq_pc = SDone, pmain_pc = PExit, printed = [4, 9, 0]\<rparr>
   \<and> [4, 9, 0 :: goint] = take 3 (map (\<lambda>n. n * n) [2, 3]) @ replicate (3 - length [2, 3 :: goint]) 0"
proof -
  let ?final = "\<lparr>gen_out = \<lparr>buf = [], cap = 0, closed = True\<rparr>,
         sq_out = \<lparr>buf = [], cap = 0, closed = True\<rparr>,
         gen_pc = GDone, sq_pc = SDone, pmain_pc = PExit, printed = [4, 9, 0 :: goint]\<rparr>"
  have e: "run (pipe_step [2, 3] 3) pipe_init [0, 0, 1, 0, 1, 0, 1, 2, 2, 0, 0] = Next ?final"
    by code_simp
  from pipeline_is_map_square
    [of "[2, 3]" 3 "[0, 0, 1, 0, 1, 0, 1, 2, 2, 0, 0]" SendOnClosedChannel ?final] e
  show ?thesis by simp
qed

section \<open>Doubling workers followed by \<^verbatim>\<open>sq\<close>\<close>

lemma staged_step_cases [consumes 1, case_names call_gen spawn spawned call_sq return recv_zero
    hand_over gen_close sq_take sq_end sq_close take finish emit pass]:
  assumes "staged_step nums W k s t = Next s'"
  obtains
    (call_gen) "st_main s = TGen"
      "s' = s\<lparr>st_c := make_chan 0, st_gen := GLoop nums, st_main := TSpawn 1\<rparr>"
  | (spawn) w where "st_main s = TSpawn w" "w \<le> W"
      "s' = s\<lparr>st_workers := st_workers s @ [\<lparr>wpc = WRecv, emitted = 0\<rparr>],
               st_main := TSpawn (Suc w)\<rparr>"
  | (spawned) w where "st_main s = TSpawn w" "\<not> w \<le> W" "s' = s\<lparr>st_main := TSq\<rparr>"
  | (call_sq) "st_main s = TSq"
      "s' = s\<lparr>st_out := make_chan 0, st_sq := SRecv, st_main := TRecv k\<rparr>"
  | (return) "st_main s = TRecv 0" "s' = s\<lparr>st_main := TExit\<rparr>"
  | (recv_zero) r where "st_main s = TRecv (Suc r)" "closed (st_out s)"
      "s' = s\<lparr>st_main := TRecv r, st_printed := st_printed s @ [0]\<rparr>"
  | (hand_over) r n where "st_main s = TRecv (Suc r)" "st_sq s = SSend n" "\<not> closed (st_out s)"
      "s' = s\<lparr>st_sq := SRecv, st_main := TRecv r, st_printed := st_printed s @ [n * n]\<rparr>"
  | (gen_close) "st_main s \<noteq> TExit" "st_gen s = GLoop []" "\<not> closed (st_c s)"
      "s' = s\<lparr>st_c := (st_c s)\<lparr>closed := True\<rparr>, st_gen := GDone\<rparr>"
  | (sq_take) n rest where "st_main s \<noteq> TExit" "st_sq s = SRecv" "buf (st_d s) = n # rest"
      "s' = s\<lparr>st_d := (st_d s)\<lparr>buf := rest\<rparr>, st_sq := SSend n\<rparr>"
  | (sq_end) "st_main s \<noteq> TExit" "st_sq s = SRecv" "closed (st_d s)"
      "s' = s\<lparr>st_sq := SClose\<rparr>"
  | (sq_close) "st_main s \<noteq> TExit" "st_sq s = SClose"
      "s' = s\<lparr>st_out := (st_out s)\<lparr>closed := True\<rparr>, st_sq := SDone\<rparr>"
  | (take) i n ns where "st_main s \<noteq> TExit" "i < length (st_workers s)"
      "wpc (st_workers s ! i) = WRecv" "\<not> closed (st_c s)" "st_gen s = GLoop (n # ns)"
      "s' = s\<lparr>st_gen := GLoop ns,
               st_workers := (st_workers s)[i := (st_workers s ! i)\<lparr>wpc := WSend n\<rparr>]\<rparr>"
  | (finish) i where "st_main s \<noteq> TExit" "i < length (st_workers s)"
      "wpc (st_workers s ! i) = WRecv" "closed (st_c s)"
      "s' = s\<lparr>st_workers := (st_workers s)[i := (st_workers s ! i)\<lparr>wpc := WDone\<rparr>]\<rparr>"
  | (emit) i j where "st_main s \<noteq> TExit" "i < length (st_workers s)"
      "wpc (st_workers s ! i) = WSend j" "\<not> closed (st_d s)"
      "s' = s\<lparr>st_d := (st_d s)\<lparr>buf := buf (st_d s) @ [j * 2]\<rparr>,
               st_workers := (st_workers s)
                 [i := \<lparr>wpc = WRecv, emitted = Suc (emitted (st_workers s ! i))\<rparr>]\<rparr>"
  | (pass) i j where "st_main s \<noteq> TExit" "i < length (st_workers s)"
      "wpc (st_workers s ! i) = WSend j" "\<not> closed (st_d s)" "st_sq s = SRecv"
      "s' = s\<lparr>st_sq := SSend (j * 2),
               st_workers := (st_workers s)
                 [i := \<lparr>wpc = WRecv, emitted = Suc (emitted (st_workers s ! i))\<rparr>]\<rparr>"
proof -
  from assms have ne: "st_main s \<noteq> TExit" by (auto simp: staged_step_def split: if_splits)
  consider "t = 0" | "t = 1" | "t = 2" | "3 \<le> t" by linarith
  then show ?thesis
  proof cases
    case 1
    with assms ne have m: "staged_main nums W k s = Next s'" by (simp add: staged_step_def)
    show ?thesis
    proof (cases "st_main s")
      case TGen
      with m call_gen show ?thesis by (simp add: staged_main_def)
    next
      case (TSpawn w)
      with m spawn spawned show ?thesis by (cases "w \<le> W") (auto simp: staged_main_def)
    next
      case TSq
      with m call_sq show ?thesis by (simp add: staged_main_def)
    next
      case (TRecv r)
      show ?thesis
      proof (cases r)
        case 0
        with m TRecv return show ?thesis by (simp add: staged_main_def)
      next
        case (Suc r')
        with m TRecv recv_zero [of r'] hand_over [of r'] show ?thesis
          by (auto simp: staged_main_def split: if_splits sq_state.splits)
      qed
    next
      case TExit
      with ne show ?thesis by simp
    qed
  next
    case 2
    with assms ne have "staged_gen s = Next s'" by (simp add: staged_step_def)
    with ne gen_close show ?thesis
      by (auto simp: staged_gen_def chan_close_def split: gen_state.splits list.splits if_splits)
  next
    case 3
    with assms ne have q: "staged_sq s = Next s'" by (simp add: staged_step_def)
    show ?thesis
    proof (cases "st_sq s")
      case SRecv
      with q ne sq_take sq_end show ?thesis
        by (auto simp: staged_sq_def chan_recv_def split: list.splits if_splits)
    next
      case (SSend n)
      with q ne hand_over show ?thesis
        by (auto simp: staged_sq_def split: tmain.splits nat.splits if_splits)
    next
      case SClose
      with q ne sq_close show ?thesis
        by (auto simp: staged_sq_def chan_close_def split: if_splits)
    qed (use q in \<open>auto simp: staged_sq_def\<close>)
  next
    case 4
    with assms ne have w: "staged_worker s (t - 3) = Next s'" by (simp add: staged_step_def)
    then have len: "t - 3 < length (st_workers s)"
      by (auto simp: staged_worker_def split: if_splits)
    show ?thesis
    proof (cases "wpc (st_workers s ! (t - 3))")
      case WRecv
      with w len ne take [of "t - 3"] finish [of "t - 3"] show ?thesis
        by (auto simp: staged_worker_def Let_def split: if_splits gen_state.splits list.splits)
    next
      case (WSend j)
      with w len ne emit [of "t - 3" j] pass [of "t - 3" j] show ?thesis
        by (auto simp: staged_worker_def Let_def chan_send_def split: if_splits)
    next
      case WDone
      with w len show ?thesis by (auto simp: staged_worker_def Let_def)
    qed
  qed
qed

lemma inflight_update_image:
  assumes "i < length ws"
  shows "mset (map f (inflight (ws[i := w]))) + mset (map f (wout (ws ! i)))
       = mset (map f (inflight ws)) + mset (map f (wout w))"
proof -
  from inflight_update [OF assms, of w]
  have "image_mset f (mset (inflight (ws[i := w])) + mset (wout (ws ! i)))
      = image_mset f (mset (inflight ws) + mset (wout w))" by simp
  then show ?thesis by simp
qed

lemma staged_inv_init: "staged_inv nums W k (staged_init dcap)"
  by (simp add: staged_inv_def staged_init_def make_chan_def staged_flow_def sq_hand_def
      gen_rest_def inflight_def trecv_left_def workers_started_def)

lemma inflight_update_squares:
  assumes "i < length ws"
  shows "image_mset (\<lambda>v. v * v) (mset (inflight (ws[i := w])))
           + image_mset (\<lambda>v. v * v) (mset (wout (ws ! i)))
       = image_mset (\<lambda>v. v * v) (mset (inflight ws)) + image_mset (\<lambda>v. v * v) (mset (wout w))"
proof -
  from inflight_update [OF assms, of w]
  have "image_mset (\<lambda>v. v * v) (mset (inflight (ws[i := w])) + mset (wout (ws ! i)))
      = image_mset (\<lambda>v. v * v) (mset (inflight ws) + mset (wout w))" by simp
  then show ?thesis by simp
qed

lemma staged_flow_step:
  assumes inv: "staged_inv nums W k s" and step: "staged_step nums W k s t = Next s'"
  shows "mset (staged_flow nums s') = mset (staged_flow nums s)"
  using step
proof (cases rule: staged_step_cases)
  case call_gen
  with inv have "st_gen s = GIdle" by (simp add: staged_inv_def)
  with call_gen show ?thesis by (simp add: staged_flow_def gen_rest_def)
next
  case (spawn w)
  then show ?thesis by (simp add: staged_flow_def inflight_def wout_def)
next
  case (spawned w)
  then show ?thesis by (simp add: staged_flow_def)
next
  case call_sq
  with inv have "st_sq s = SIdle" by (simp add: staged_inv_def)
  with call_sq show ?thesis by (simp add: staged_flow_def sq_hand_def)
next
  case return
  then show ?thesis by (simp add: staged_flow_def)
next
  case (recv_zero r)
  with inv show ?thesis by (simp add: staged_inv_def)
next
  case (hand_over r n)
  then show ?thesis by (simp add: staged_flow_def sq_hand_def)
next
  case gen_close
  then show ?thesis by (simp add: staged_flow_def gen_rest_def)
next
  case (sq_take n rest)
  then show ?thesis by (simp add: staged_flow_def sq_hand_def)
next
  case sq_end
  with inv show ?thesis by (simp add: staged_inv_def)
next
  case sq_close
  with inv show ?thesis by (simp add: staged_inv_def)
next
  case (take i n ns)
  let ?w = "(st_workers s ! i)\<lparr>wpc := WSend n\<rparr>"
  from inflight_update_squares [OF take(2), of ?w] take(3)
  have "image_mset (\<lambda>v. v * v) (mset (inflight ((st_workers s)[i := ?w])))
      = image_mset (\<lambda>v. v * v) (mset (inflight (st_workers s))) + {#(n * 2) * (n * 2)#}"
    by (simp add: wout_def)
  with take show ?thesis by (simp add: staged_flow_def gen_rest_def)
next
  case (finish i)
  let ?w = "(st_workers s ! i)\<lparr>wpc := WDone\<rparr>"
  from inflight_update_squares [OF finish(2), of ?w] finish(3)
  have "image_mset (\<lambda>v. v * v) (mset (inflight ((st_workers s)[i := ?w])))
      = image_mset (\<lambda>v. v * v) (mset (inflight (st_workers s)))"
    by (simp add: wout_def)
  with finish show ?thesis by (simp add: staged_flow_def)
next
  case (emit i j)
  let ?w = "\<lparr>wpc = WRecv, emitted = Suc (emitted (st_workers s ! i))\<rparr>"
  from inflight_update_squares [OF emit(2), of ?w] emit(3)
  have "image_mset (\<lambda>v. v * v) (mset (inflight (st_workers s)))
      = image_mset (\<lambda>v. v * v) (mset (inflight ((st_workers s)[i := ?w])))
          + {#(j * 2) * (j * 2)#}"
    by (simp add: wout_def)
  with emit show ?thesis by (simp add: staged_flow_def)
next
  case (pass i j)
  let ?w = "\<lparr>wpc = WRecv, emitted = Suc (emitted (st_workers s ! i))\<rparr>"
  from inflight_update_squares [OF pass(2), of ?w] pass(3)
  have "image_mset (\<lambda>v. v * v) (mset (inflight (st_workers s)))
      = image_mset (\<lambda>v. v * v) (mset (inflight ((st_workers s)[i := ?w])))
          + {#(j * 2) * (j * 2)#}"
    by (simp add: wout_def)
  with pass show ?thesis by (simp add: staged_flow_def sq_hand_def)
qed

lemma no_done_update:
  assumes "\<forall>w \<in> set ws. wpc w \<noteq> WDone" "wpc w' \<noteq> WDone"
  shows "\<forall>w \<in> set (ws[i := w']). wpc w \<noteq> WDone"
  using assms by (auto dest!: set_update_subset_insert [THEN subsetD])

lemma staged_inv_step:
  assumes inv: "staged_inv nums W k s" and step: "staged_step nums W k s t = Next s'"
  shows "staged_inv nums W k s'"
proof -
  from inv have fl: "mset (staged_flow nums s) = mset (map (\<lambda>x. (x * 2) * (x * 2)) nums)"
    by (simp add: staged_inv_def)
  with staged_flow_step [OF inv step]
  have fl': "mset (staged_flow nums s') = mset (map (\<lambda>x. (x * 2) * (x * 2)) nums)" by simp
  from inv have dn: "st_gen s \<noteq> GDone \<Longrightarrow> \<forall>w \<in> set (st_workers s). wpc w \<noteq> WDone"
    by (auto simp: staged_inv_def)
  from step show ?thesis
  proof (cases rule: staged_step_cases)
    case call_gen
    with inv fl' show ?thesis
      by (simp add: staged_inv_def make_chan_def trecv_left_def workers_started_def)
  next
    case (spawn w)
    with inv fl' show ?thesis
      by (simp add: staged_inv_def trecv_left_def workers_started_def)
  next
    case (spawned w)
    with inv fl' show ?thesis
      by (simp add: staged_inv_def trecv_left_def workers_started_def)
  next
    case call_sq
    with inv fl' show ?thesis
      by (simp add: staged_inv_def make_chan_def trecv_left_def workers_started_def)
  next
    case return
    with inv fl' show ?thesis
      by (simp add: staged_inv_def trecv_left_def workers_started_def)
  next
    case (recv_zero r)
    with inv show ?thesis by (simp add: staged_inv_def)
  next
    case (hand_over r n)
    with inv fl' show ?thesis
      by (simp add: staged_inv_def trecv_left_def workers_started_def)
  next
    case gen_close
    with inv fl' show ?thesis by (simp add: staged_inv_def)
  next
    case (sq_take n rest)
    with inv fl' show ?thesis by (simp add: staged_inv_def)
  next
    case sq_end
    with inv show ?thesis by (simp add: staged_inv_def)
  next
    case sq_close
    with inv show ?thesis by (simp add: staged_inv_def)
  next
    case (take i n ns)
    from take(5) have "st_gen s \<noteq> GDone" by simp
    from no_done_update [OF dn [OF this], of "(st_workers s ! i)\<lparr>wpc := WSend n\<rparr>" i]
    have "\<forall>w \<in> set ((st_workers s)[i := (st_workers s ! i)\<lparr>wpc := WSend n\<rparr>]). wpc w \<noteq> WDone"
      by simp
    with inv fl' take show ?thesis by (simp add: staged_inv_def)
  next
    case (finish i)
    with inv have "st_gen s = GDone" by (simp add: staged_inv_def)
    with inv fl' finish show ?thesis by (simp add: staged_inv_def)
  next
    case (emit i j)
    let ?w = "\<lparr>wpc = WRecv, emitted = Suc (emitted (st_workers s ! i))\<rparr>"
    have "st_gen s \<noteq> GDone \<Longrightarrow> \<forall>w \<in> set ((st_workers s)[i := ?w]). wpc w \<noteq> WDone"
      using no_done_update [OF dn, of ?w i] by simp
    then have "(\<exists>w \<in> set ((st_workers s)[i := ?w]). wpc w = WDone) \<longrightarrow> st_gen s = GDone"
      by blast
    with inv fl' emit show ?thesis by (simp add: staged_inv_def)
  next
    case (pass i j)
    let ?w = "\<lparr>wpc = WRecv, emitted = Suc (emitted (st_workers s ! i))\<rparr>"
    have "st_gen s \<noteq> GDone \<Longrightarrow> \<forall>w \<in> set ((st_workers s)[i := ?w]). wpc w \<noteq> WDone"
      using no_done_update [OF dn, of ?w i] by simp
    then have "(\<exists>w \<in> set ((st_workers s)[i := ?w]). wpc w = WDone) \<longrightarrow> st_gen s = GDone"
      by blast
    with inv fl' pass show ?thesis by (simp add: staged_inv_def)
  qed
qed

lemma staged_no_crash:
  assumes "staged_inv nums W k s"
  shows "staged_step nums W k s t \<noteq> Crash p"
proof -
  from assms have c: "\<not> closed (st_d s)" "\<not> closed (st_out s)"
    "closed (st_c s) \<longleftrightarrow> st_gen s = GDone"
    by (simp_all add: staged_inv_def)
  consider "t = 0" | "t = 1" | "t = 2" | "3 \<le> t" by linarith
  then show ?thesis
  proof cases
    case 1
    then show ?thesis
      by (auto simp: staged_step_def staged_main_def split: tmain.splits nat.splits sq_state.splits)
  next
    case 2
    with c show ?thesis
      by (auto simp: staged_step_def staged_gen_def chan_close_def
          split: gen_state.splits list.splits)
  next
    case 3
    with c show ?thesis
      by (auto simp: staged_step_def staged_sq_def chan_close_def chan_recv_def
          split: sq_state.splits list.splits tmain.splits nat.splits)
  next
    case 4
    with c show ?thesis
      by (auto simp: staged_step_def staged_worker_def Let_def chan_send_def
          split: wstate.splits gen_state.splits list.splits)
  qed
qed

lemma staged_measure_step:
  assumes "staged_step nums W k s t = Next s'"
  shows "staged_measure nums W k s' < staged_measure nums W k s"
  using assms
proof (cases rule: staged_step_cases)
  case (spawn w)
  then show ?thesis by (simp add: staged_measure_def inflight_def wout_def active_def)
next
  case (take i n ns)
  let ?w = "(st_workers s ! i)\<lparr>wpc := WSend n\<rparr>"
  from inflight_update_length [OF take(2), of ?w] take(3)
  have 1: "length (inflight ((st_workers s)[i := ?w])) = Suc (length (inflight (st_workers s)))"
    by (simp add: wout_def)
  from sum_list_map_update [OF take(2), of "\<lambda>w. if wpc w = WDone then 0 else 1" ?w] take(3)
  have 2: "active ((st_workers s)[i := ?w]) = active (st_workers s)" by (simp add: active_def)
  from take 1 2 show ?thesis by (simp add: staged_measure_def)
next
  case (finish i)
  let ?w = "(st_workers s ! i)\<lparr>wpc := WDone\<rparr>"
  from inflight_update_length [OF finish(2), of ?w] finish(3)
  have 1: "length (inflight ((st_workers s)[i := ?w])) = length (inflight (st_workers s))"
    by (simp add: wout_def)
  from sum_list_map_update [OF finish(2), of "\<lambda>w. if wpc w = WDone then 0 else 1" ?w] finish(3)
  have 2: "Suc (active ((st_workers s)[i := ?w])) = active (st_workers s)"
    by (simp add: active_def)
  from finish 1 2 show ?thesis by (simp add: staged_measure_def)
next
  case (emit i j)
  let ?w = "\<lparr>wpc = WRecv, emitted = Suc (emitted (st_workers s ! i))\<rparr>"
  from inflight_update_length [OF emit(2), of ?w] emit(3)
  have 1: "Suc (length (inflight ((st_workers s)[i := ?w]))) = length (inflight (st_workers s))"
    by (simp add: wout_def)
  from sum_list_map_update [OF emit(2), of "\<lambda>w. if wpc w = WDone then 0 else 1" ?w] emit(3)
  have 2: "active ((st_workers s)[i := ?w]) = active (st_workers s)" by (simp add: active_def)
  from emit 1 2 show ?thesis by (simp add: staged_measure_def)
next
  case (pass i j)
  let ?w = "\<lparr>wpc = WRecv, emitted = Suc (emitted (st_workers s ! i))\<rparr>"
  from inflight_update_length [OF pass(2), of ?w] pass(3)
  have 1: "Suc (length (inflight ((st_workers s)[i := ?w]))) = length (inflight (st_workers s))"
    by (simp add: wout_def)
  from sum_list_map_update [OF pass(2), of "\<lambda>w. if wpc w = WDone then 0 else 1" ?w] pass(3)
  have 2: "active ((st_workers s)[i := ?w]) = active (st_workers s)" by (simp add: active_def)
  from pass 1 2 show ?thesis by (simp add: staged_measure_def)
qed (auto simp: staged_measure_def make_chan_def)

lemma staged_flow_length:
  assumes "staged_inv nums W k s"
  shows "length (staged_flow nums s) = length nums"
proof -
  from assms have "mset (staged_flow nums s) = mset (map (\<lambda>x. (x * 2) * (x * 2)) nums)"
    by (simp add: staged_inv_def)
  from mset_eq_length [OF this] show ?thesis by simp
qed

lemma staged_progress:
  assumes inv: "staged_inv nums W k s" and W: "1 \<le> W" and k: "k \<le> length nums"
    and ne: "st_main s \<noteq> TExit"
  shows "\<exists>t s'. staged_step nums W k s t = Next s'"
proof -
  have main: "\<exists>s'. staged_step nums W k s 0 = Next s' \<Longrightarrow> ?thesis" by blast
  have sq: "\<exists>s'. staged_step nums W k s 2 = Next s' \<Longrightarrow> ?thesis" by blast
  have worker: "\<And>i. \<exists>s'. staged_step nums W k s (i + 3) = Next s' \<Longrightarrow> ?thesis" by blast
  from inv have cl: "\<not> closed (st_d s)" "\<not> closed (st_out s)"
    "closed (st_c s) \<longleftrightarrow> st_gen s = GDone"
    and sqs: "st_sq s \<noteq> SClose" "st_sq s \<noteq> SDone"
    and dn: "(\<exists>w \<in> set (st_workers s). wpc w = WDone) \<longrightarrow> st_gen s = GDone"
    and cnt: "length (st_printed s) + trecv_left k (st_main s) = k"
    by (simp_all add: staged_inv_def)
  show ?thesis
  proof (cases "st_main s")
    case TGen
    then show ?thesis by (intro main) (simp add: staged_step_def staged_main_def)
  next
    case (TSpawn w)
    then show ?thesis by (intro main) (simp add: staged_step_def staged_main_def)
  next
    case TSq
    then show ?thesis by (intro main) (simp add: staged_step_def staged_main_def)
  next
    case TExit
    with ne show ?thesis by simp
  next
    case (TRecv r)
    show ?thesis
    proof (cases r)
      case 0
      with TRecv show ?thesis by (intro main) (simp add: staged_step_def staged_main_def)
    next
      case (Suc r')
      from inv TRecv have idle: "st_sq s \<noteq> SIdle" "st_gen s \<noteq> GIdle"
        and lw: "length (st_workers s) = W"
        by (auto simp: staged_inv_def workers_started_def)
      from cnt TRecv Suc k have short: "length (st_printed s) < length nums"
        by (simp add: trecv_left_def)
      show ?thesis
      proof (cases "st_sq s")
        case (SSend n)
        with TRecv Suc cl show ?thesis
          by (intro main) (simp add: staged_step_def staged_main_def)
      next
        case SRecv
        show ?thesis
        proof (cases "buf (st_d s)")
          case (Cons v rest)
          with SRecv TRecv show ?thesis
            by (intro sq) (simp add: staged_step_def staged_sq_def chan_recv_def)
        next
          case Nil
          show ?thesis
          proof (cases "inflight (st_workers s) = []")
            case False
            from inflight_nonempty [OF this] obtain i j
              where i: "i < length (st_workers s)" "wpc (st_workers s ! i) = WSend j" by blast
            with Nil SRecv TRecv cl show ?thesis
              by (intro worker [of i])
                (simp add: staged_step_def staged_worker_def Let_def chan_send_def)
          next
            case empty: True
            from staged_flow_length [OF inv] short Nil empty SRecv
            have "gen_rest nums (st_gen s) \<noteq> []"
              by (auto simp: staged_flow_def sq_hand_def)
            with idle obtain n ns where g: "st_gen s = GLoop (n # ns)"
              by (cases "st_gen s") (auto simp: gen_rest_def neq_Nil_conv)
            from lw W have i: "0 < length (st_workers s)" by simp
            then have mem: "st_workers s ! 0 \<in> set (st_workers s)" by simp
            from dn g mem have "wpc (st_workers s ! 0) \<noteq> WDone" by auto
            moreover from inflight_empty [OF empty mem]
            have "\<And>j. wpc (st_workers s ! 0) \<noteq> WSend j" .
            ultimately have "wpc (st_workers s ! 0) = WRecv"
              by (cases "wpc (st_workers s ! 0)") auto
            with i g cl TRecv show ?thesis
              by (intro worker [of 0]) (simp add: staged_step_def staged_worker_def Let_def)
          qed
        qed
      qed (use idle sqs in simp_all)
    qed
  qed
qed

lemma staged_reach_inv:
  "run (staged_step nums W k) (staged_init dcap) sched = Next s \<Longrightarrow> staged_inv nums W k s"
  by (rule run_invariant [where I = "staged_inv nums W k" and step = "staged_step nums W k"])
    (auto intro: staged_inv_step staged_inv_init)

lemma staged_reach_no_crash: "run (staged_step nums W k) (staged_init dcap) sched \<noteq> Crash p"
  by (rule run_no_crash [where I = "staged_inv nums W k"])
    (auto intro: staged_inv_step staged_inv_init dest: staged_no_crash)

lemma staged_reach_bounded:
  assumes "run (staged_step nums W k) (staged_init dcap) sched = Next s"
  shows "length sched \<le> 5 * length nums + 2 * W + k + 7"
proof -
  have "length sched + staged_measure nums W k s \<le> staged_measure nums W k (staged_init dcap)"
    by (rule run_bounded [where I = "\<lambda>s. True" and step = "staged_step nums W k"])
      (auto intro: staged_measure_step assms)
  then show ?thesis
    by (simp add: staged_measure_def staged_init_def make_chan_def inflight_def active_def)
qed

lemma staged_exit_output:
  assumes inv: "staged_inv nums W (length nums) s" and e: "st_main s = TExit"
  shows "mset (st_printed s) = mset (map (\<lambda>x. (x * 2) * (x * 2)) nums)"
proof -
  from inv e have "length (st_printed s) = length nums"
    by (simp add: staged_inv_def trecv_left_def)
  with staged_flow_length [OF inv] have "staged_flow nums s = st_printed s"
    by (simp add: staged_flow_def)
  with inv show ?thesis by (simp add: staged_inv_def)
qed

text \<open>
  Claim C2. Take the two-stage pipeline whose stage 1 is the guide's \<^verbatim>\<open>worker\<close>, applying
  \<open>x \<mapsto> 2 * x\<close>, and whose stage 2 is the guide's \<^verbatim>\<open>sq\<close>, applying \<open>x \<mapsto> x * x\<close>, and run
  it on the input sequence \<open>2, 3\<close> with the two receives of \<^verbatim>\<open>main\<close>. For every number
  \<open>W \<ge> 1\<close> of workers in stage 1, every capacity of the channel between the stages and
  every interleaving: nothing panics, the run is finite and never stuck before \<^verbatim>\<open>main\<close>
  returns, and when \<^verbatim>\<open>main\<close> returns it has printed exactly the two values 16 and 36,
  each once, in some order, and no other value. The same values come out, in the order
  16, 36, when the doubled numbers are fed to \<^verbatim>\<open>sq\<close> through \<^verbatim>\<open>gen\<close> directly.
\<close>

theorem two_stage_pipeline_16_36:
  assumes "1 \<le> W"
  shows "run (staged_step [2, 3] W 2) (staged_init dcap) sched \<noteq> Crash p \<and>
    (run (staged_step [2, 3] W 2) (staged_init dcap) sched = Next s \<longrightarrow>
       length sched \<le> 2 * W + 19 \<and>
       (st_main s \<noteq> TExit \<longrightarrow> (\<exists>t s'. staged_step [2, 3] W 2 s t = Next s')) \<and>
       (st_main s = TExit \<longrightarrow>
          set (st_printed s) = {16, 36} \<and> length (st_printed s) = 2 \<and>
          mset (st_printed s) = mset [16, 36])) \<and>
    (run (pipe_step (map (\<lambda>x. x * 2) [2, 3]) 2) pipe_init psched = Next ps \<longrightarrow>
       pmain_pc ps = PExit \<longrightarrow> printed ps = [16, 36])"
proof (intro conjI impI)
  show "run (staged_step [2, 3] W 2) (staged_init dcap) sched \<noteq> Crash p"
    by (rule staged_reach_no_crash)
next
  assume r: "run (staged_step [2, 3] W 2) (staged_init dcap) sched = Next s"
  from staged_reach_bounded [OF r] show "length sched \<le> 2 * W + 19" by simp
  from r have inv: "staged_inv [2, 3] W 2 s" by (rule staged_reach_inv)
  {
    assume "st_main s \<noteq> TExit"
    with inv assms show "\<exists>t s'. staged_step [2, 3] W 2 s t = Next s'"
      by (intro staged_progress) simp_all
  }
  {
    assume e: "st_main s = TExit"
    have "length [2, 3 :: goint] = 2" by simp
    with inv have "staged_inv [2, 3] W (length [2, 3 :: goint]) s" by (simp only:)
    from staged_exit_output [OF this e] show m: "mset (st_printed s) = mset [16, 36]" by simp
    from mset_eq_setD [OF m] show "set (st_printed s) = {16, 36}" by simp
    from mset_eq_length [OF m] show "length (st_printed s) = 2" by simp
  }
next
  assume r: "run (pipe_step (map (\<lambda>x. x * 2) [2, 3]) 2) pipe_init psched = Next ps"
    and e: "pmain_pc ps = PExit"
  from r have "pipe_inv (map (\<lambda>x. x * 2) [2, 3]) 2 ps" by (rule pipe_reach_inv)
  from pipe_exit_output [OF this e] show "printed ps = [16, 36]" by simp
qed

theorem two_stage_pipeline_16_36_witness:
  "(1 :: nat) \<le> 2
   \<and> run (staged_step [2, 3] 2 2) (staged_init 0) [0, 0, 0, 0, 0, 3, 4, 4, 0, 1, 3, 0, 0]
     = Next \<lparr>st_c = \<lparr>buf = [], cap = 0, closed = True\<rparr>,
         st_d = \<lparr>buf = [], cap = 0, closed = False\<rparr>,
         st_out = \<lparr>buf = [], cap = 0, closed = False\<rparr>, st_gen = GDone,
         st_workers = [\<lparr>wpc = WRecv, emitted = 1\<rparr>, \<lparr>wpc = WRecv, emitted = 1\<rparr>],
         st_sq = SRecv, st_main = TExit, st_printed = [36, 16]\<rparr>
   \<and> set [36, 16 :: goint] = {16, 36}
   \<and> run (pipe_step (map (\<lambda>x. x * 2) [2, 3]) 2) pipe_init [0, 0, 1, 0, 1, 0, 0]
     = Next \<lparr>gen_out = \<lparr>buf = [], cap = 0, closed = False\<rparr>,
         sq_out = \<lparr>buf = [], cap = 0, closed = False\<rparr>,
         gen_pc = GLoop [], sq_pc = SRecv, pmain_pc = PExit, printed = [16, 36]\<rparr>"
proof -
  let ?final = "\<lparr>st_c = \<lparr>buf = [], cap = 0, closed = True\<rparr>,
         st_d = \<lparr>buf = [], cap = 0, closed = False\<rparr>,
         st_out = \<lparr>buf = [], cap = 0, closed = False\<rparr>, st_gen = GDone,
         st_workers = [\<lparr>wpc = WRecv, emitted = 1\<rparr>, \<lparr>wpc = WRecv, emitted = 1\<rparr>],
         st_sq = SRecv, st_main = TExit, st_printed = [36, 16 :: goint]\<rparr>"
  let ?pfinal = "\<lparr>gen_out = \<lparr>buf = [], cap = 0, closed = False\<rparr>,
         sq_out = \<lparr>buf = [], cap = 0, closed = False\<rparr>,
         gen_pc = GLoop [], sq_pc = SRecv, pmain_pc = PExit, printed = [16, 36 :: goint]\<rparr>"
  have w: "(1 :: nat) \<le> 2" by simp
  have e: "run (staged_step [2, 3] 2 2) (staged_init 0) [0, 0, 0, 0, 0, 3, 4, 4, 0, 1, 3, 0, 0]
      = Next ?final" by code_simp
  have f: "run (pipe_step (map (\<lambda>x. x * 2) [2, 3]) 2) pipe_init [0, 0, 1, 0, 1, 0, 0]
      = Next ?pfinal" by code_simp
  from two_stage_pipeline_16_36
    [OF w, of 0 "[0, 0, 0, 0, 0, 3, 4, 4, 0, 1, 3, 0, 0]" SendOnClosedChannel ?final
      "[0, 0, 1, 0, 1, 0, 0]" ?pfinal] e f
  show ?thesis by simp
qed

section \<open>The semaphore never admits more than its capacity\<close>

lemma bounded_step_cases [consumes 1, case_names spawn spawned waited acquire work release
    release_closed wg_done]:
  assumes "bounded_step s t = Next s'"
  obtains
    (spawn) task rest where "bmain_pc s = BSpawn (task # rest)"
      "s' = s\<lparr>wg := wg s + 1, running := running s @ [\<lparr>task_id = task, tpc = TAcquire\<rparr>],
               bmain_pc := BSpawn rest\<rparr>"
  | (spawned) "bmain_pc s = BSpawn []" "s' = s\<lparr>bmain_pc := BWait\<rparr>"
  | (waited) "bmain_pc s = BWait" "wg s = 0" "s' = s\<lparr>bmain_pc := BExit\<rparr>"
  | (acquire) i where "i < length (running s)" "tpc (running s ! i) = TAcquire"
      "\<not> closed (sem s)" "length (buf (sem s)) < cap (sem s)"
      "s' = s\<lparr>sem := (sem s)\<lparr>buf := buf (sem s) @ [()]\<rparr>,
               running := (running s)[i := (running s ! i)\<lparr>tpc := TWork\<rparr>]\<rparr>"
  | (work) i where "i < length (running s)" "tpc (running s ! i) = TWork"
      "s' = s\<lparr>processing := processing s @ [task_id (running s ! i)],
               running := (running s)[i := (running s ! i)\<lparr>tpc := TRelease\<rparr>]\<rparr>"
  | (release) i u r where "i < length (running s)" "tpc (running s ! i) = TRelease"
      "buf (sem s) = u # r"
      "s' = s\<lparr>sem := (sem s)\<lparr>buf := r\<rparr>,
               running := (running s)[i := (running s ! i)\<lparr>tpc := TWgDone\<rparr>]\<rparr>"
  | (release_closed) i where "i < length (running s)" "tpc (running s ! i) = TRelease"
      "buf (sem s) = []" "closed (sem s)"
      "s' = s\<lparr>running := (running s)[i := (running s ! i)\<lparr>tpc := TWgDone\<rparr>]\<rparr>"
  | (wg_done) i where "i < length (running s)" "tpc (running s ! i) = TWgDone" "wg s \<noteq> 0"
      "s' = s\<lparr>wg := wg s - 1,
               running := (running s)[i := (running s ! i)\<lparr>tpc := TReturned\<rparr>]\<rparr>"
proof (cases "t = 0")
  case True
  with assms have m: "bmain_step s = Next s'" by (auto simp: bounded_step_def split: if_splits)
  with spawn spawned waited show ?thesis
    by (auto simp: bmain_step_def split: bmain.splits list.splits if_splits)
next
  case False
  with assms have w: "task_step s (t - 1) = Next s'"
    by (auto simp: bounded_step_def split: if_splits)
  then have len: "t - 1 < length (running s)" by (auto simp: task_step_def split: if_splits)
  show ?thesis
  proof (cases "tpc (running s ! (t - 1))")
    case TAcquire
    with w len acquire [of "t - 1"] show ?thesis
      by (auto simp: task_step_def Let_def chan_send_def split: if_splits)
  next
    case TWork
    with w len work [of "t - 1"] show ?thesis by (auto simp: task_step_def Let_def)
  next
    case TRelease
    with w len release [of "t - 1"] release_closed [of "t - 1"] show ?thesis
      by (auto simp: task_step_def Let_def chan_recv_def split: if_splits list.splits)
  next
    case TWgDone
    with w len wg_done [of "t - 1"] show ?thesis
      by (auto simp: task_step_def Let_def split: if_splits)
  next
    case TReturned
    with w len show ?thesis by (auto simp: task_step_def Let_def)
  qed
qed

lemma bounded_inv_init: "bounded_inv K (bounded_init K tasks)"
  by (simp add: bounded_inv_def bounded_init_def make_chan_def holders_def)

lemma bounded_inv_step:
  assumes inv: "bounded_inv K s" and step: "bounded_step s t = Next s'"
  shows "bounded_inv K s'"
  using step
proof (cases rule: bounded_step_cases)
  case (spawn task rest)
  with inv show ?thesis by (simp add: bounded_inv_def holders_def holding_def unreturned_def)
next
  case spawned
  with inv show ?thesis by (simp add: bounded_inv_def holders_def)
next
  case waited
  with inv show ?thesis by (simp add: bounded_inv_def holders_def)
next
  case (acquire i)
  let ?t = "(running s ! i)\<lparr>tpc := TWork\<rparr>"
  from filter_update_length [OF acquire(1), of holding ?t] acquire(2)
  have h: "length (filter holding ((running s)[i := ?t])) = Suc (length (filter holding (running s)))"
    by (simp add: holding_def)
  from filter_update_length [OF acquire(1), of unreturned ?t] acquire(2)
  have u: "length (filter unreturned ((running s)[i := ?t])) = length (filter unreturned (running s))"
    by (simp add: unreturned_def)
  from inv acquire h u show ?thesis by (simp add: bounded_inv_def holders_def)
next
  case (work i)
  let ?t = "(running s ! i)\<lparr>tpc := TRelease\<rparr>"
  from filter_update_length [OF work(1), of holding ?t] work(2)
  have h: "length (filter holding ((running s)[i := ?t])) = length (filter holding (running s))"
    by (simp add: holding_def)
  from filter_update_length [OF work(1), of unreturned ?t] work(2)
  have u: "length (filter unreturned ((running s)[i := ?t])) = length (filter unreturned (running s))"
    by (simp add: unreturned_def)
  from inv work h u show ?thesis by (simp add: bounded_inv_def holders_def)
next
  case (release i v r)
  let ?t = "(running s ! i)\<lparr>tpc := TWgDone\<rparr>"
  from filter_update_length [OF release(1), of holding ?t] release(2)
  have h: "Suc (length (filter holding ((running s)[i := ?t]))) = length (filter holding (running s))"
    by (simp add: holding_def)
  from filter_update_length [OF release(1), of unreturned ?t] release(2)
  have u: "length (filter unreturned ((running s)[i := ?t])) = length (filter unreturned (running s))"
    by (simp add: unreturned_def)
  from inv release h u show ?thesis by (simp add: bounded_inv_def holders_def)
next
  case (release_closed i)
  with inv show ?thesis by (simp add: bounded_inv_def)
next
  case (wg_done i)
  let ?t = "(running s ! i)\<lparr>tpc := TReturned\<rparr>"
  from filter_update_length [OF wg_done(1), of holding ?t] wg_done(2)
  have h: "length (filter holding ((running s)[i := ?t])) = length (filter holding (running s))"
    by (simp add: holding_def)
  from filter_update_length [OF wg_done(1), of unreturned ?t] wg_done(2)
  have u: "Suc (length (filter unreturned ((running s)[i := ?t]))) = length (filter unreturned (running s))"
    by (simp add: unreturned_def)
  from inv wg_done h u show ?thesis by (simp add: bounded_inv_def holders_def)
qed

lemma bounded_no_crash:
  assumes "bounded_inv K s"
  shows "bounded_step s t \<noteq> Crash p"
proof (cases "t = 0")
  case True
  then show ?thesis
    by (auto simp: bounded_step_def bmain_step_def split: bmain.splits list.splits)
next
  case False
  show ?thesis
  proof (cases "t - 1 < length (running s)")
    case False
    with \<open>t \<noteq> 0\<close> show ?thesis by (simp add: bounded_step_def task_step_def)
  next
    case True
    then have mem: "running s ! (t - 1) \<in> set (running s)" by simp
    have "wg s \<noteq> 0" if "tpc (running s ! (t - 1)) = TWgDone"
    proof -
      from that mem have "running s ! (t - 1) \<in> set (filter unreturned (running s))"
        by (simp add: unreturned_def)
      then have "filter unreturned (running s) \<noteq> []" by (metis empty_iff empty_set)
      with assms show ?thesis by (simp add: bounded_inv_def)
    qed
    moreover from assms have "\<not> closed (sem s)" by (simp add: bounded_inv_def)
    ultimately show ?thesis using True \<open>t \<noteq> 0\<close>
      by (auto simp: bounded_step_def task_step_def Let_def chan_send_def chan_recv_def
          split: tstate.splits list.splits)
  qed
qed

lemma bounded_reach_inv:
  "run bounded_step (bounded_init K tasks) sched = Next s \<Longrightarrow> bounded_inv K s"
  by (rule run_invariant [where I = "bounded_inv K" and step = bounded_step])
    (auto intro: bounded_inv_step bounded_inv_init)

lemma bounded_reach_no_crash: "run bounded_step (bounded_init K tasks) sched \<noteq> Crash p"
  by (rule run_no_crash [where I = "bounded_inv K"])
    (auto intro: bounded_inv_step bounded_inv_init dest: bounded_no_crash)

text \<open>
  Claim C3. With a semaphore of capacity \<open>K\<close>, in every state that any interleaving of
  the acquires and releases of the task goroutines can reach, the number of slots held
  (the occupancy of the channel) equals the number of goroutines between their acquire
  and their release, and it is at most \<open>K\<close>; being a count it is never negative. No
  interleaving panics. The guide's program has no cancellation, so no step is ever
  interrupted by one.
\<close>

theorem semaphore_holders_bounded:
  "run bounded_step (bounded_init K tasks) sched \<noteq> Crash p \<and>
   (run bounded_step (bounded_init K tasks) sched = Next s \<longrightarrow>
      holders s = length (buf (sem s)) \<and> 0 \<le> holders s \<and> holders s \<le> K)"
proof (intro conjI impI)
  show "run bounded_step (bounded_init K tasks) sched \<noteq> Crash p"
    by (rule bounded_reach_no_crash)
next
  assume "run bounded_step (bounded_init K tasks) sched = Next s"
  then have inv: "bounded_inv K s" by (rule bounded_reach_inv)
  then show "holders s = length (buf (sem s))" and "holders s \<le> K"
    by (simp_all add: bounded_inv_def)
  show "0 \<le> holders s" by simp
qed

theorem semaphore_holders_bounded_witness:
  "run bounded_step (bounded_init 3 [1, 2, 3, 4, 5, 6, 7, 8, 9, 10])
       (replicate 11 0 @ [1, 2, 3, 1, 1, 4])
     = Next \<lparr>sem = \<lparr>buf = [(), (), ()], cap = 3, closed = False\<rparr>, wg = 10,
         running =
           [\<lparr>task_id = 1, tpc = TWgDone\<rparr>, \<lparr>task_id = 2, tpc = TWork\<rparr>,
            \<lparr>task_id = 3, tpc = TWork\<rparr>, \<lparr>task_id = 4, tpc = TWork\<rparr>,
            \<lparr>task_id = 5, tpc = TAcquire\<rparr>, \<lparr>task_id = 6, tpc = TAcquire\<rparr>,
            \<lparr>task_id = 7, tpc = TAcquire\<rparr>, \<lparr>task_id = 8, tpc = TAcquire\<rparr>,
            \<lparr>task_id = 9, tpc = TAcquire\<rparr>, \<lparr>task_id = 10, tpc = TAcquire\<rparr>],
         bmain_pc = BWait, processing = [1]\<rparr>
   \<and> holders \<lparr>sem = \<lparr>buf = [(), (), ()], cap = 3, closed = False\<rparr>, wg = 10,
         running =
           [\<lparr>task_id = 1, tpc = TWgDone\<rparr>, \<lparr>task_id = 2, tpc = TWork\<rparr>,
            \<lparr>task_id = 3, tpc = TWork\<rparr>, \<lparr>task_id = 4, tpc = TWork\<rparr>,
            \<lparr>task_id = 5, tpc = TAcquire\<rparr>, \<lparr>task_id = 6, tpc = TAcquire\<rparr>,
            \<lparr>task_id = 7, tpc = TAcquire\<rparr>, \<lparr>task_id = 8, tpc = TAcquire\<rparr>,
            \<lparr>task_id = 9, tpc = TAcquire\<rparr>, \<lparr>task_id = 10, tpc = TAcquire\<rparr>],
         bmain_pc = BWait, processing = [1]\<rparr> = 3
   \<and> run bounded_step (bounded_init 3 [1, 2, 3, 4, 5, 6, 7, 8, 9, 10])
       (replicate 11 0 @ [1, 2, 3, 1, 1, 4, 5]) = Wait"
proof -
  let ?final = "\<lparr>sem = \<lparr>buf = [(), (), ()], cap = 3, closed = False\<rparr>, wg = 10,
         running =
           [\<lparr>task_id = 1, tpc = TWgDone\<rparr>, \<lparr>task_id = 2, tpc = TWork\<rparr>,
            \<lparr>task_id = 3, tpc = TWork\<rparr>, \<lparr>task_id = 4, tpc = TWork\<rparr>,
            \<lparr>task_id = 5, tpc = TAcquire\<rparr>, \<lparr>task_id = 6, tpc = TAcquire\<rparr>,
            \<lparr>task_id = 7, tpc = TAcquire\<rparr>, \<lparr>task_id = 8, tpc = TAcquire\<rparr>,
            \<lparr>task_id = 9, tpc = TAcquire\<rparr>, \<lparr>task_id = 10, tpc = TAcquire\<rparr>],
         bmain_pc = BWait, processing = [1]\<rparr>"
  have e: "run bounded_step (bounded_init 3 [1, 2, 3, 4, 5, 6, 7, 8, 9, 10])
       (replicate 11 0 @ [1, 2, 3, 1, 1, 4]) = Next ?final"
    by code_simp
  have w: "run bounded_step (bounded_init 3 [1, 2, 3, 4, 5, 6, 7, 8, 9, 10])
       (replicate 11 0 @ [1, 2, 3, 1, 1, 4, 5]) = Wait"
    by code_simp
  from semaphore_holders_bounded
    [of 3 "[1, 2, 3, 4, 5, 6, 7, 8, 9, 10]" "replicate 11 0 @ [1, 2, 3, 1, 1, 4]"
      SendOnClosedChannel ?final] e w
  show ?thesis by simp
qed

section \<open>One producer, one consumer: order is preserved\<close>

lemma submitted_Suc: "submitted (Suc i) = submitted i @ [fst (fib_vars i)]"
  by (simp add: submitted_def)

lemma fib_step_cases [consumes 1, case_names start print leave send close]:
  assumes "fib_step csize s t = Next s'"
  obtains
    (start) "fmain_pc s = FStart"
      "s' = s\<lparr>fch := make_chan csize, fib_pc := FLoop 0 0 1, fmain_pc := FRange\<rparr>"
  | (print) v r where "fmain_pc s = FRange" "buf (fch s) = v # r"
      "s' = s\<lparr>fch := (fch s)\<lparr>buf := r\<rparr>, fprinted := fprinted s @ [v]\<rparr>"
  | (leave) "fmain_pc s = FRange" "buf (fch s) = []" "closed (fch s)"
      "s' = s\<lparr>fmain_pc := FExit\<rparr>"
  | (send) i x y where "fmain_pc s \<noteq> FExit" "fib_pc s = FLoop i x y" "i < cap (fch s)"
      "\<not> closed (fch s)" "length (buf (fch s)) < cap (fch s)"
      "s' = s\<lparr>fch := (fch s)\<lparr>buf := buf (fch s) @ [x]\<rparr>, fib_pc := FLoop (Suc i) y (x + y)\<rparr>"
  | (close) i x y where "fmain_pc s \<noteq> FExit" "fib_pc s = FLoop i x y" "\<not> i < cap (fch s)"
      "\<not> closed (fch s)" "s' = s\<lparr>fch := (fch s)\<lparr>closed := True\<rparr>, fib_pc := FDone\<rparr>"
proof -
  from assms have ne: "fmain_pc s \<noteq> FExit" and t: "t = 0 \<or> t = 1"
    by (auto simp: fib_step_def split: if_splits)
  from t show ?thesis
  proof
    assume "t = 0"
    with assms ne have "fmain_step csize s = Next s'" by (simp add: fib_step_def)
    with ne start print leave show ?thesis
      by (auto simp: fmain_step_def chan_recv_def split: fmain.splits list.splits if_splits)
  next
    assume "t = 1"
    with assms ne have "fibonacci_step (cap (fch s)) s = Next s'" by (simp add: fib_step_def)
    with ne send close show ?thesis
      by (auto simp: fibonacci_step_def chan_send_def chan_close_def
          split: fib_state.splits if_splits)
  qed
qed

lemma fib_inv_init: "fib_inv csize fib_init"
  by (simp add: fib_inv_def fib_init_def)

lemma fib_inv_step:
  assumes inv: "fib_inv csize s" and step: "fib_step csize s t = Next s'"
  shows "fib_inv csize s'"
  using step
proof (cases rule: fib_step_cases)
  case start
  with inv have "fib_pc s = FIdle" by (simp add: fib_inv_def)
  with inv start show ?thesis by (simp add: fib_inv_def make_chan_def submitted_def)
next
  case (print v r)
  with inv show ?thesis by (auto simp: fib_inv_def split: fib_state.splits)
next
  case leave
  with inv show ?thesis by (auto simp: fib_inv_def split: fib_state.splits)
next
  case (send i x y)
  with inv have v: "fib_vars i = (x, y)" by (simp add: fib_inv_def)
  with inv send show ?thesis by (simp add: fib_inv_def submitted_Suc)
next
  case (close i x y)
  with inv have "i = csize" by (simp add: fib_inv_def)
  with inv close show ?thesis by (simp add: fib_inv_def)
qed

lemma fib_reach_inv:
  "run (fib_step csize) fib_init sched = Next s \<Longrightarrow> fib_inv csize s"
  by (rule run_invariant [where I = "fib_inv csize" and step = "fib_step csize"])
    (auto intro: fib_inv_step fib_inv_init)

lemma submitted_prefix: "i \<le> n \<Longrightarrow> prefix (submitted i) (submitted n)"
proof -
  assume "i \<le> n"
  then have "[0..<n] = [0..<i] @ [i..<n]" by (metis le_add_diff_inverse upt_add_eq_append zero_le)
  then have "submitted n = submitted i @ map (\<lambda>i. fst (fib_vars i)) [i..<n]"
    by (simp add: submitted_def)
  then show ?thesis by (rule prefixI)
qed

lemma fib_printed_prefix:
  assumes "fib_inv csize s"
  shows "prefix (fprinted s) (submitted csize)"
proof (cases "fib_pc s")
  case FIdle
  with assms show ?thesis by (simp add: fib_inv_def)
next
  case (FLoop i x y)
  with assms have eq: "submitted i = fprinted s @ buf (fch s)" and le: "i \<le> csize"
    by (simp_all add: fib_inv_def)
  from eq have "prefix (fprinted s) (submitted i)" by (rule prefixI)
  moreover from le have "prefix (submitted i) (submitted csize)" by (rule submitted_prefix)
  ultimately show ?thesis by (rule prefix_order.trans)
next
  case FDone
  with assms have "submitted csize = fprinted s @ buf (fch s)" by (simp add: fib_inv_def)
  then show ?thesis by (rule prefixI)
qed

lemma fib_exit_output:
  assumes "fib_inv csize s" "fmain_pc s = FExit"
  shows "fprinted s = submitted csize"
  using assms by (cases "fib_pc s") (auto simp: fib_inv_def)

lemma fib_measure_step:
  assumes "fib_inv csize s" "fib_step csize s t = Next s'"
  shows "fib_measure csize s' < fib_measure csize s"
  using assms(2)
proof (cases rule: fib_step_cases)
  case start
  then show ?thesis by (simp add: fib_measure_def make_chan_def)
next
  case (print v r)
  then show ?thesis by (simp add: fib_measure_def)
next
  case leave
  then show ?thesis by (simp add: fib_measure_def)
next
  case (send i x y)
  with assms(1) have "i < csize" by (simp add: fib_inv_def)
  with send show ?thesis by (simp add: fib_measure_def)
next
  case (close i x y)
  then show ?thesis by (simp add: fib_measure_def)
qed

lemma fib_reach_bounded:
  assumes "run (fib_step csize) fib_init sched = Next s"
  shows "length sched \<le> 2 * csize + 3"
proof -
  have "length sched + fib_measure csize s \<le> fib_measure csize fib_init"
    by (rule run_bounded [where I = "fib_inv csize" and step = "fib_step csize"])
      (auto intro: fib_inv_step fib_inv_init fib_measure_step assms)
  then show ?thesis by (simp add: fib_measure_def fib_init_def make_chan_def)
qed

lemma fib_progress:
  assumes inv: "fib_inv csize s" and ne: "fmain_pc s \<noteq> FExit"
  shows "\<exists>t s'. fib_step csize s t = Next s'"
proof -
  have main: "\<exists>s'. fib_step csize s 0 = Next s' \<Longrightarrow> ?thesis" by blast
  have fib: "\<exists>s'. fib_step csize s 1 = Next s' \<Longrightarrow> ?thesis" by blast
  show ?thesis
  proof (cases "fmain_pc s")
    case FStart
    then show ?thesis by (intro main) (simp add: fib_step_def fmain_step_def)
  next
    case FExit
    with ne show ?thesis by simp
  next
    case FRange
    show ?thesis
    proof (cases "buf (fch s)")
      case (Cons v r)
      with FRange show ?thesis
        by (intro main) (simp add: fib_step_def fmain_step_def chan_recv_def)
    next
      case Nil
      show ?thesis
      proof (cases "fib_pc s")
        case FIdle
        with inv FRange show ?thesis by (simp add: fib_inv_def)
      next
        case FDone
        with inv have "closed (fch s)" by (simp add: fib_inv_def)
        with Nil FRange show ?thesis
          by (intro main) (simp add: fib_step_def fmain_step_def chan_recv_def)
      next
        case (FLoop i x y)
        with inv have "\<not> closed (fch s)" by (simp add: fib_inv_def)
        with FLoop Nil FRange show ?thesis
          by (intro fib)
            (simp add: fib_step_def fibonacci_step_def chan_send_def chan_close_def)
      qed
    qed
  qed
qed

lemma pool_single_reach:
  assumes "run (pool_step 1 N) (pool_init N) sched = Next s"
  shows "pool_inv 1 N s \<and> flow N s = doubled N"
proof (rule run_invariant [where I = "\<lambda>s. pool_inv 1 N s \<and> flow N s = doubled N"
      and step = "pool_step 1 N", OF _ _ assms])
  show "pool_inv 1 N (pool_init N) \<and> flow N (pool_init N) = doubled N"
    by (simp add: pool_inv_init)
      (simp add: flow_def doubled_def pool_init_def make_chan_def unsent_def inflight_def)
next
  fix s t s'
  assume I: "pool_inv 1 N s \<and> flow N s = doubled N" and st: "pool_step 1 N s t = Next s'"
  from I have ch: "inv_chan N s" and pc: "inv_pc 1 N s" by (simp_all add: pool_inv_def)
  from pc have "length (workers s) \<le> 1" by (auto simp: inv_pc_def split: mpc.splits)
  from flow_step_single [OF st ch pc this] I pool_inv_step [OF _ st]
  show "pool_inv 1 N s' \<and> flow N s' = doubled N" by simp
qed

text \<open>
  Claim C9. A stage with exactly one worker keeps the order: in the worker pool run with
  one worker, what \<^verbatim>\<open>main\<close> has received is at every moment an initial part of the
  results in the order the jobs were submitted, and when \<^verbatim>\<open>main\<close> returns it is all of
  them. The same holds for the one producer \<^verbatim>\<open>fibonacci\<close> and the one consumer
  \<^verbatim>\<open>main\<close> on their channel: the numbers are printed in the order they were sent. In
  both programs every interleaving is finite and none is stuck before \<^verbatim>\<open>main\<close> returns.
  With more than one worker no order is promised, and indeed the guide's pool of three
  workers has an interleaving that delivers the results out of submission order.
\<close>

theorem single_worker_preserves_order:
  "(run (pool_step 1 N) (pool_init N) sched = Next s \<longrightarrow>
      length sched \<le> 4 * N + 6 \<and>
      (main_pc s \<noteq> Exit \<longrightarrow> (\<exists>t s'. pool_step 1 N s t = Next s')) \<and>
      prefix (observed s) (map (\<lambda>j. of_nat j * 2) [1..<Suc N]) \<and>
      (main_pc s = Exit \<longrightarrow> observed s = map (\<lambda>j. of_nat j * 2) [1..<Suc N]))
   \<and> (run (fib_step csize) fib_init fsched = Next fs \<longrightarrow>
      length fsched \<le> 2 * csize + 3 \<and>
      (fmain_pc fs \<noteq> FExit \<longrightarrow> (\<exists>t s'. fib_step csize fs t = Next s')) \<and>
      prefix (fprinted fs) (submitted csize) \<and>
      (fmain_pc fs = FExit \<longrightarrow> fprinted fs = submitted csize))
   \<and> (\<exists>sched3 s3. run (pool_step 3 10) (pool_init 10) sched3 = Next s3 \<and> main_pc s3 = Exit
        \<and> observed s3 \<noteq> map (\<lambda>j. of_nat j * 2) [1..<Suc 10])"
proof (intro conjI impI)
  assume r: "run (pool_step 1 N) (pool_init N) sched = Next s"
  from pool_reach_bounded [OF r] show "length sched \<le> 4 * N + 6" by simp
  from pool_single_reach [OF r] have inv: "pool_inv 1 N s" and fl: "flow N s = doubled N"
    by simp_all
  from fl [symmetric] show "prefix (observed s) (map (\<lambda>j. of_nat j * 2) [1..<Suc N])"
    unfolding doubled_def [symmetric] flow_def by (rule prefixI)
  {
    assume "main_pc s \<noteq> Exit"
    with inv show "\<exists>t s'. pool_step 1 N s t = Next s'" by (intro pool_progress) simp_all
  }
  {
    assume "main_pc s = Exit"
    with inv have "flow N s = observed s" by (rule pool_exit_flow)
    with fl show "observed s = map (\<lambda>j. of_nat j * 2) [1..<Suc N]" by (simp add: doubled_def)
  }
next
  assume r: "run (fib_step csize) fib_init fsched = Next fs"
  then show "length fsched \<le> 2 * csize + 3" by (rule fib_reach_bounded)
  from r have inv: "fib_inv csize fs" by (rule fib_reach_inv)
  then show "prefix (fprinted fs) (submitted csize)" by (rule fib_printed_prefix)
  {
    assume "fmain_pc fs \<noteq> FExit"
    with inv show "\<exists>t s'. fib_step csize fs t = Next s'" by (rule fib_progress)
  }
  {
    assume "fmain_pc fs = FExit"
    with inv show "fprinted fs = submitted csize" by (rule fib_exit_output)
  }
next
  let ?sched = "replicate 16 0 @ [1, 2, 3, 3, 2, 1, 1, 2, 3, 1, 2, 3, 1, 2, 3, 1, 2, 3, 1, 1]
    @ replicate 11 (0 :: nat)"
  let ?final = "\<lparr>jobs = \<lparr>buf = [], cap = 10, closed = True\<rparr>,
        results = \<lparr>buf = [], cap = 10, closed = False\<rparr>,
        workers = [\<lparr>wpc = WRecv, emitted = 4\<rparr>, \<lparr>wpc = WRecv, emitted = 3\<rparr>,
          \<lparr>wpc = WRecv, emitted = 3\<rparr>],
        main_pc = Exit, observed = [6, 4, 2, 8, 10, 12, 14, 16, 18, 20]\<rparr>"
  have "run (pool_step 3 10) (pool_init 10) ?sched = Next ?final" by code_simp
  moreover have "main_pc ?final = Exit" by simp
  moreover have "observed ?final \<noteq> map (\<lambda>j. of_nat j * 2) [1..<Suc 10]" by code_simp
  ultimately show "\<exists>sched3 s3. run (pool_step 3 10) (pool_init 10) sched3 = Next s3
      \<and> main_pc s3 = Exit \<and> observed s3 \<noteq> map (\<lambda>j. of_nat j * 2) [1..<Suc 10]"
    by blast
qed

theorem single_worker_preserves_order_witness:
  "run (pool_step 1 3) (pool_init 3) [0, 0, 0, 1, 0, 1, 0, 0, 1, 0, 1, 1, 0, 1, 0, 0, 0]
     = Next \<lparr>jobs = \<lparr>buf = [], cap = 3, closed = True\<rparr>,
         results = \<lparr>buf = [], cap = 3, closed = False\<rparr>,
         workers = [\<lparr>wpc = WRecv, emitted = 3\<rparr>],
         main_pc = Exit, observed = [2, 4, 6]\<rparr>
   \<and> [2, 4, 6 :: goint] = map (\<lambda>j. of_nat j * 2) [1..<Suc 3]
   \<and> run (fib_step 10) fib_init ([0, 1, 1, 1, 0, 0] @ replicate 8 1 @ replicate 9 0)
     = Next \<lparr>fch = \<lparr>buf = [], cap = 10, closed = True\<rparr>, fib_pc = FDone,
         fmain_pc = FExit, fprinted = [0, 1, 1, 2, 3, 5, 8, 13, 21, 34]\<rparr>
   \<and> [0, 1, 1, 2, 3, 5, 8, 13, 21, 34 :: goint] = submitted 10"
proof -
  let ?pfinal = "\<lparr>jobs = \<lparr>buf = [], cap = 3, closed = True\<rparr>,
         results = \<lparr>buf = [], cap = 3, closed = False\<rparr>,
         workers = [\<lparr>wpc = WRecv, emitted = 3\<rparr>],
         main_pc = Exit, observed = [2, 4, 6 :: goint]\<rparr>"
  let ?ffinal = "\<lparr>fch = \<lparr>buf = [], cap = 10, closed = True\<rparr>, fib_pc = FDone,
         fmain_pc = FExit, fprinted = [0, 1, 1, 2, 3, 5, 8, 13, 21, 34 :: goint]\<rparr>"
  have p: "run (pool_step 1 3) (pool_init 3) [0, 0, 0, 1, 0, 1, 0, 0, 1, 0, 1, 1, 0, 1, 0, 0, 0]
      = Next ?pfinal" by code_simp
  have f: "run (fib_step 10) fib_init ([0, 1, 1, 1, 0, 0] @ replicate 8 1 @ replicate 9 0)
      = Next ?ffinal" by code_simp
  from single_worker_preserves_order
    [of 3 "[0, 0, 0, 1, 0, 1, 0, 0, 1, 0, 1, 1, 0, 1, 0, 0, 0]" ?pfinal
      10 "[0, 1, 1, 1, 0, 0] @ replicate 8 1 @ replicate 9 0" ?ffinal] p f
  show ?thesis by simp
qed

section \<open>A panicking work item is logged and harms nobody else\<close>

lemma safelyDo_returns: "fst (safelyDo do work lg) = Returns"
  by (simp add: safelyDo_def split: call.splits)

lemma server_step_cases [consumes 1, case_names accept finish handle]:
  assumes "server_step do s t = Next s'"
  obtains
    (accept) work r where "\<not> server_done s" "buf (work_chan s) = work # r"
      "s' = s\<lparr>work_chan := (work_chan s)\<lparr>buf := r\<rparr>, handlers := handlers s @ [(work, False)]\<rparr>"
  | (finish) "\<not> server_done s" "buf (work_chan s) = []" "closed (work_chan s)"
      "s' = s\<lparr>server_done := True\<rparr>"
  | (handle) i work where "i < length (handlers s)" "handlers s ! i = (work, False)"
      "s' = s\<lparr>handlers := (handlers s)[i := (work, True)],
               logged := snd (safelyDo do work (logged s))\<rparr>"
proof (cases "t = 0")
  case True
  with assms have "server_loop s = Next s'" by (simp add: server_step_def)
  with accept finish show ?thesis
    by (auto simp: server_loop_def chan_recv_def split: if_splits list.splits)
next
  case False
  with assms have h: "handler_step do s (t - 1) = Next s'" by (simp add: server_step_def)
  then have len: "t - 1 < length (handlers s)" by (auto simp: handler_step_def split: if_splits)
  obtain work fin where w: "handlers s ! (t - 1) = (work, fin)" by (cases "handlers s ! (t - 1)")
  with h len have "\<not> fin" by (auto simp: handler_step_def)
  with h len w handle [of "t - 1" work] show ?thesis
    by (auto simp: handler_step_def split: prod.splits call.splits)
qed

lemma failure_lines_update:
  "i < length hs \<Longrightarrow>
     mset (concat (map f (hs[i := h]))) + mset (f (hs ! i)) = mset (concat (map f hs)) + mset (f h)"
proof (induction hs arbitrary: i)
  case Nil
  then show ?case by simp
next
  case (Cons a hs)
  show ?case
  proof (cases i)
    case 0
    then show ?thesis by simp
  next
    case (Suc j)
    with Cons.prems have "j < length hs" by simp
    from Cons.IH [OF this] Suc show ?thesis by simp
  qed
qed

lemma server_inv_init: "server_inv do c (server_init c)"
  by (simp add: server_inv_def server_init_def)

lemma server_measure_step:
  assumes "server_step do s t = Next s'"
  shows "server_measure s' < server_measure s"
  using assms
proof (cases rule: server_step_cases)
  case (accept work r)
  then show ?thesis by (simp add: server_measure_def pending_def)
next
  case finish
  then show ?thesis by (simp add: server_measure_def)
next
  case (handle i work)
  from filter_update_length [OF handle(1), of pending "(work, True)"] handle(2)
  have "Suc (length (filter pending ((handlers s)[i := (work, True)])))
      = length (filter pending (handlers s))" by (simp add: pending_def)
  with handle show ?thesis by (simp add: server_measure_def)
qed

lemma server_reach_bounded:
  assumes "run (server_step do) (server_init c) sched = Next s"
  shows "length sched \<le> 2 * length (buf c) + 1"
proof -
  have "length sched + server_measure s \<le> server_measure (server_init c)"
    by (rule run_bounded [where I = "\<lambda>s. True" and step = "server_step do"])
      (auto intro: server_measure_step assms)
  then show ?thesis by (simp add: server_measure_def server_init_def)
qed

lemma server_inv_step:
  assumes inv: "server_inv do c s" and step: "server_step do s t = Next s'"
  shows "server_inv do c s'"
  using step
proof (cases rule: server_step_cases)
  case (accept work r)
  with inv show ?thesis by (simp add: server_inv_def failure_line_def)
next
  case finish
  with inv show ?thesis by (simp add: server_inv_def)
next
  case (handle i work)
  from handle(1,2) have "map fst ((handlers s)[i := (work, True)]) = map fst (handlers s)"
    by (simp add: map_update) (metis fst_conv list_update_id map_update)
  moreover
  from failure_lines_update [OF handle(1), of "failure_line do" "(work, True)"] handle(2)
  have "mset (concat (map (failure_line do) ((handlers s)[i := (work, True)])))
      = mset (concat (map (failure_line do) (handlers s))) + mset (failure_line do (work, True))"
    by (simp add: failure_line_def)
  moreover have "mset (snd (safelyDo do work (logged s)))
      = mset (logged s) + mset (failure_line do (work, True))"
    by (simp add: safelyDo_def failure_line_def split: call.splits)
  ultimately show ?thesis using inv handle by (simp add: server_inv_def)
qed

lemma server_no_crash: "server_step do s t \<noteq> Crash p"
  by (auto simp: server_step_def server_loop_def handler_step_def safelyDo_def
      split: recv_result.splits prod.splits call.splits bool.splits)

lemma server_reach_inv:
  "run (server_step do) (server_init c) sched = Next s \<Longrightarrow> server_inv do c s"
  by (rule run_invariant [where I = "server_inv do c" and step = "server_step do"])
    (auto intro: server_inv_step server_inv_init)

lemma server_reach_no_crash: "run (server_step do) (server_init c) sched \<noteq> Crash p"
  by (rule run_no_crash [where I = "\<lambda>s. True"]) (auto simp: server_no_crash)

lemma handler_enabled:
  assumes "i < length (handlers s)" "\<not> snd (handlers s ! i)"
  shows "\<exists>s'. server_step do s (Suc i) = Next s'"
  using assms
  by (cases "handlers s ! i")
    (auto simp: server_step_def handler_step_def safelyDo_def split: call.splits)


lemma server_loop_enabled:
  assumes "server_inv do c s" "closed c" "\<not> server_done s"
  shows "\<exists>s'. server_step do s 0 = Next s'"
proof -
  from assms have "closed (work_chan s)" by (simp add: server_inv_def)
  with assms(3) show ?thesis
    by (simp add: server_step_def server_loop_def chan_recv_def split: list.splits)
qed

text \<open>
  Claim C5, as stated, fails on the guide's code in one point: a recovered panic is not
  turned into a result that carries the error. \<^verbatim>\<open>safelyDo\<close> has no result; when the work
  panics (here with \<^verbatim>\<open>mayPanic\<close>) the call returns like any other and the failure is
  only written to the log.
\<close>

theorem recovered_panic_is_logged_counterexample:
  "safelyDo mayPanic () [] = (Returns, [''work failed: a problem''])"
  by (simp add: safelyDo_def mayPanic_def)

text \<open>
  Claim C5, amended. Whatever \<^verbatim>\<open>do\<close> does, \<^verbatim>\<open>safelyDo\<close> returns normally: a panic of
  \<^verbatim>\<open>do(work)\<close> is recovered inside the goroutine of that work item and written to the
  log as ``work failed: \<dots>'', and no result value is produced. Under every interleaving
  of the server and its handlers nothing panics; the work items taken from the channel
  are exactly those that were queued, in order; the log holds exactly one line for each
  handler that has run and whose work panicked; a handler that has not run yet can
  always run, whatever happened to the others; the server loop can always go on while the
  closed channel is not drained; and every interleaving is finite. So one failing work
  item stops neither the server nor any other work item.
\<close>

theorem panicking_work_is_logged_not_fatal:
  "fst (safelyDo do work lg) = Returns
   \<and> run (server_step do) (server_init c) sched \<noteq> Crash p
   \<and> (run (server_step do) (server_init c) sched = Next s \<longrightarrow>
        length sched \<le> 2 * length (buf c) + 1
        \<and> map fst (handlers s) @ buf (work_chan s) = buf c
        \<and> mset (logged s) = mset (concat (map (failure_line do) (handlers s)))
        \<and> (\<forall>i < length (handlers s). \<not> snd (handlers s ! i) \<longrightarrow>
              (\<exists>s'. server_step do s (Suc i) = Next s'))
        \<and> (closed c \<and> \<not> server_done s \<longrightarrow> (\<exists>s'. server_step do s 0 = Next s'))
        \<and> (server_done s \<longrightarrow> map fst (handlers s) = buf c))"
proof (intro conjI impI allI)
  show "fst (safelyDo do work lg) = Returns" by (rule safelyDo_returns)
  show "run (server_step do) (server_init c) sched \<noteq> Crash p" by (rule server_reach_no_crash)
next
  assume r: "run (server_step do) (server_init c) sched = Next s"
  then show "length sched \<le> 2 * length (buf c) + 1" by (rule server_reach_bounded)
  from r have inv: "server_inv do c s" by (rule server_reach_inv)
  then show "map fst (handlers s) @ buf (work_chan s) = buf c"
    and "mset (logged s) = mset (concat (map (failure_line do) (handlers s)))"
    by (simp_all add: server_inv_def)
  {
    fix i assume "i < length (handlers s)" "\<not> snd (handlers s ! i)"
    then show "\<exists>s'. server_step do s (Suc i) = Next s'" by (rule handler_enabled)
  }
  {
    assume "closed c \<and> \<not> server_done s"
    then have "closed c" "\<not> server_done s" by simp_all
    with inv show "\<exists>s'. server_step do s 0 = Next s'" by (rule server_loop_enabled)
  }
  {
    assume "server_done s"
    with inv show "map fst (handlers s) = buf c" by (auto simp: server_inv_def)
  }
qed

theorem panicking_work_is_logged_not_fatal_witness:
  "run (server_step (\<lambda>w. if w = (2 :: nat) then Panics ''a problem'' else Returns))
       (server_init \<lparr>buf = [1, 2, 3], cap = 3, closed = True\<rparr>) [0, 0, 0, 2, 1, 3, 0]
     = Next \<lparr>work_chan = \<lparr>buf = [], cap = 3, closed = True\<rparr>,
         handlers = [(1, True), (2, True), (3, True)], server_done = True,
         logged = [''work failed: a problem'']\<rparr>
   \<and> length [0, 0, 0, 2, 1, 3, 0 :: nat] \<le> 2 * length [1, 2, 3 :: nat] + 1
   \<and> map fst [(1 :: nat, True), (2, True), (3, True)] = [1, 2, 3]"
proof -
  let ?do = "\<lambda>w. if w = (2 :: nat) then Panics ''a problem'' else Returns"
  let ?c = "\<lparr>buf = [1, 2, 3 :: nat], cap = 3, closed = True\<rparr>"
  let ?final = "\<lparr>work_chan = \<lparr>buf = [], cap = 3, closed = True\<rparr>,
         handlers = [(1 :: nat, True), (2, True), (3, True)], server_done = True,
         logged = [''work failed: a problem'']\<rparr>"
  have e: "run (server_step ?do) (server_init ?c) [0, 0, 0, 2, 1, 3, 0] = Next ?final"
    by code_simp
  from panicking_work_is_logged_not_fatal
    [of ?do 2 "[]" ?c "[0, 0, 0, 2, 1, 3, 0]" "Panic ''a problem''" ?final] e
  show ?thesis by simp
qed

end
